theory Spec2Isabelle
  imports Main "HOL-Library.Sublist"
begin

section \<open>JavaScript values and string tests used by the server\<close>

text \<open>
  A JavaScript string is modelled by the list of its UTF-16 code units, one \<open>char\<close> for
  each code unit; the strings of the model are those whose code units are all below 256
  (the Latin-1 range), so that the length of a string, \<open>substring\<close>, \<open>includes\<close> and
  \<open>split\<close> count the same positions here and in the source.

  Job ids are the uuid strings of the server. An optional request or configuration field
  is a \<open>string option\<close>; JavaScript's truthiness test \<open>if (x)\<close> on such a field holds
  exactly when the field is present and not the empty string.
\<close>

type_synonym jid = string

definition truthy :: "string option \<Rightarrow> bool" where
  "truthy v = (case v of None \<Rightarrow> False | Some s \<Rightarrow> s \<noteq> [])"

text \<open>\<open>s.includes(sub)\<close> and \<open>s.startsWith(p)\<close>.\<close>

fun str_includes :: "string \<Rightarrow> string \<Rightarrow> bool" where
  "str_includes [] sub = (sub = [])"
| "str_includes (c # cs) sub = (prefix sub (c # cs) \<or> str_includes cs sub)"

definition startsWith :: "string \<Rightarrow> string \<Rightarrow> bool" where
  "startsWith s p = prefix p s"

text \<open>
  A regular expression that is a fixed sequence of character classes, searched anywhere
  in the subject (\<open>s.match(re)\<close> used as a truth value): each element of the pattern
  is the list of characters accepted at that position. The case-insensitive flag \<open>/i\<close>
  of the source is written out as the two cases of each letter.
\<close>

fun match_here :: "string list \<Rightarrow> string \<Rightarrow> bool" where
  "match_here [] s = True"
| "match_here (cs # ps) [] = False"
| "match_here (cs # ps) (c # s) = (c \<in> set cs \<and> match_here ps s)"

fun match_any :: "string list \<Rightarrow> string \<Rightarrow> bool" where
  "match_any ps [] = match_here ps []"
| "match_any ps (c # s) = (match_here ps (c # s) \<or> match_any ps s)"

text \<open>\<open>/\.(m3u8|mpd)/i\<close>\<close>

definition isStreamUrl :: "string \<Rightarrow> bool" where
  "isStreamUrl u =
     (match_any [''.'', ''mM'', ''3'', ''uU'', ''8''] u \<or> match_any [''.'', ''mM'', ''pP'', ''dD''] u)"

text \<open>
  \<open>isVideoPlatform\<close> is declared twice in the queueing server; a later function
  declaration replaces an earlier one, so the second list is the one in force.
\<close>

definition isVideoPlatform :: "string \<Rightarrow> bool" where
  "isVideoPlatform u = list_ex (str_includes u)
     [''youtube.com/watch'', ''youtu.be/'', ''twitch.tv/'', ''vimeo.com/'',
      ''dailymotion.com/video'', ''facebook.com/watch'', ''instagram.com/p/'',
      ''tiktok.com/'', ''googlevideo.com'']"

text \<open>\<open>s.split("\n")\<close>\<close>

fun split_nl :: "string \<Rightarrow> string list" where
  "split_nl [] = [[]]"
| "split_nl (c # cs) =
     (if c = CHR 0x0A then [] # split_nl cs
      else (case split_nl cs of [] \<Rightarrow> [[c]] | l # ls \<Rightarrow> (c # l) # ls))"

text \<open>\<open>l.toLowerCase().includes("error") || l.toLowerCase().includes("failed")\<close>\<close>

definition isErrorLine :: "string \<Rightarrow> bool" where
  "isErrorLine l =
     (match_any [''eE'', ''rR'', ''rR'', ''oO'', ''rR''] l
      \<or> match_any [''fF'', ''aA'', ''iI'', ''lL'', ''eE'', ''dD''] l)"

text \<open>\<open>x || d\<close> on an optional string, and the arguments pushed by \<open>if (x) args.push(...)\<close>.\<close>

definition js_or :: "string option \<Rightarrow> string \<Rightarrow> string" where
  "js_or v d = (case v of None \<Rightarrow> d | Some s \<Rightarrow> if s = [] then d else s)"

definition when_set :: "string option \<Rightarrow> (string \<Rightarrow> string list) \<Rightarrow> string list" where
  "when_set v f = (case v of None \<Rightarrow> [] | Some s \<Rightarrow> if s = [] then [] else f s)"

definition defaultUA :: "string option \<Rightarrow> string" where
  "defaultUA ua = js_or ua ''Mozilla/5.0 (Windows NT 10.0; Win64; x64) AppleWebKit/537.36 (KHTML, like Gecko) Chrome/120.0.0.0 Safari/537.36''"

section \<open>Data model\<close>

text \<open>
  The text of \<open>info.error\<close>: a line taken from the worker's error output or the message of
  a launch error, or the fallback \<open>Echec (code N)\<close> carrying the exit code (\<open>None\<close> when
  the worker was ended by a signal and the code is \<open>null\<close>).
\<close>

datatype errtext = Text string | Echec "int option"

text \<open>The \<open>downloadInfo\<close> object of a job (field \<open>id\<close> is \<open>iid\<close> here).\<close>

record info =
  iid :: jid
  url :: string
  filename :: string
  status :: string
  progress :: nat
  speed :: string
  eta :: string
  currentSize :: string
  fullSize :: string
  startedAt :: "string option"
  completedAt :: "string option"
  error :: "errtext option"
  sizeBytes :: "nat option"

text \<open>The \<open>downloadConfig\<close> object captured at submission.\<close>

record config =
  cfg_url :: string
  referer :: "string option"
  ua :: "string option"
  noCheckCert :: bool
  customFilename :: "string option"
  singleSegment :: bool
  cookies :: "string option"
  cfg_filename :: string
  forceVideo :: bool
  connections :: "string option"
  formatCode :: "string option"

text \<open>
  An entry of \<open>activeDownloads\<close>. Entries created by \<open>loadState\<close> have no \<open>config\<close>
  property. \<open>process\<close> is the handle of the last worker spawned for the job: the index
  of its \<open>spawn\<close> call.
\<close>

record download =
  info :: info
  config :: "config option"
  process :: "nat option"
  retryCount :: nat

text \<open>
  The constants read from the environment at start-up, as natural numbers. (A setting that
  \<open>parseInt\<close> does not read as a positive number makes the comparisons \<open>runningCount <
  MAX_CONCURRENT_DOWNLOADS\<close> and \<open>retryCount < RETRY_ATTEMPTS\<close> false, as 0 does.)
\<close>

record settings =
  MAX_CONCURRENT_DOWNLOADS :: nat
  RETRY_ATTEMPTS :: nat

text \<open>
  The state of the server. Handlers keep a reference to the \<open>download\<close> object of their
  job after the job has left the table, so the objects live in a store \<open>objs\<close> (one
  object per id, ids being unique) and the table \<open>activeDownloads\<close> is the list of the
  keys it holds, in insertion order. \<open>downloadQueue\<close> and \<open>historyList\<close> are the arrays of
  the source; \<open>stateFile\<close> is the content of the persisted snapshot.

  The rest records what the server did to its environment and what the environment still
  owes it: \<open>events\<close> the broadcasts (type and a copy of the info sent), \<open>spawned\<close> the
  \<open>spawn\<close> calls (job, command, arguments), \<open>killed\<close> the handles sent SIGTERM,
  \<open>workers\<close> the jobs of the worker processes that have not closed yet, \<open>timers\<close> the jobs
  of the retry timers that have not fired yet, \<open>finishing\<close> the jobs whose success handler
  is suspended at an \<open>await\<close>, \<open>started\<close> the ids that \<open>processQueue\<close> has taken from the
  queue and \<open>submitted\<close> the ids pushed on it.
\<close>

record engine =
  objs :: "jid \<Rightarrow> download option"
  activeDownloads :: "jid list"
  downloadQueue :: "jid list"
  historyList :: "(info \<times> string) list"
  stateFile :: "info list"
  events :: "(string \<times> info) list"
  spawned :: "(jid \<times> string \<times> string list) list"
  killed :: "nat list"
  workers :: "jid list"
  timers :: "jid list"
  finishing :: "jid list"
  started :: "jid list"
  submitted :: "jid list"

definition empty_engine :: engine where
  "empty_engine = \<lparr>objs = (\<lambda>k. None), activeDownloads = [], downloadQueue = [],
     historyList = [], stateFile = [], events = [], spawned = [], killed = [],
     workers = [], timers = [], finishing = [], started = [], submitted = []\<rparr>"

text \<open>\<open>activeDownloads.get(k)\<close>, \<open>activeDownloads.set(k, _)\<close> on the key list, and the values.\<close>

definition table_get :: "engine \<Rightarrow> jid \<Rightarrow> download option" where
  "table_get st k = (if k \<in> set (activeDownloads st) then objs st k else None)"

definition table_set :: "jid \<Rightarrow> jid list \<Rightarrow> jid list" where
  "table_set k ks = (if k \<in> set ks then ks else ks @ [k])"

definition table_values :: "engine \<Rightarrow> download list" where
  "table_values st = List.map_filter (objs st) (activeDownloads st)"

section \<open>The queueing server\<close>

subsection \<open>Broadcast and persistence\<close>

text \<open>
  \<open>saveState\<close> writes the info of every entry of the table; the snapshot is taken when
  the function is called and the file is overwritten with it.
\<close>

definition saveState :: "engine \<Rightarrow> engine" where
  "saveState st = st\<lparr>stateFile := map info (table_values st)\<rparr>"

definition broadcast :: "string \<Rightarrow> info \<Rightarrow> engine \<Rightarrow> engine" where
  "broadcast ty i st =
     (let st1 = st\<lparr>events := events st @ [(ty, i)]\<rparr>
      in if ty = ''status-change'' \<or> status i \<noteq> ''downloading'' then saveState st1 else st1)"

subsection \<open>loadState\<close>

text \<open>
  \<open>data\<close> is the parsed content of the state file, \<open>None\<close> when the file is missing or
  cannot be read; \<open>hist\<close> likewise for the history file. The text of the synthetic
  error is the source's literal \<open>Arr\<close>, U+00EA, \<open>t du serveur\<close>, code unit by code unit.
\<close>

definition restore :: "info \<Rightarrow> info" where
  "restore i =
     (if status i = ''downloading'' \<or> status i = ''retrying''
      then i\<lparr>status := ''interrupted'',
             error := Some (Text (''Arr'' @ [CHR 0xEA] @ ''t du serveur'')),
             speed := ''0 KB/s'', eta := ''--''\<rparr>
      else i)"

definition load_entry :: "engine \<Rightarrow> info \<Rightarrow> engine" where
  "load_entry st i =
     st\<lparr>objs := (objs st)(iid i \<mapsto> \<lparr>info = restore i, config = None, process = None, retryCount = 0\<rparr>),
        activeDownloads := table_set (iid i) (activeDownloads st)\<rparr>"

definition loadState :: "info list option \<Rightarrow> (info \<times> string) list option \<Rightarrow> engine \<Rightarrow> engine" where
  "loadState data hist st =
     (let st1 = (case data of None \<Rightarrow> st | Some infos \<Rightarrow> foldl load_entry st infos)
      in st1\<lparr>historyList := (case hist of None \<Rightarrow> [] | Some h \<Rightarrow> h)\<rparr>)"

subsection \<open>startDownload and processQueue\<close>

text \<open>The predicate of the filter in \<open>processQueue\<close> and the count it computes.\<close>

definition is_running :: "download \<Rightarrow> bool" where
  "is_running d = (status (info d) = ''downloading'' \<or> status (info d) = ''retrying'')"

definition runningCount :: "engine \<Rightarrow> nat" where
  "runningCount st = length (filter is_running (table_values st))"

definition downloadsDir :: string where
  "downloadsDir = ''downloads''"

text \<open>\<open>path.join\<close> of a directory and a name made of plain segments.\<close>

definition path_join :: "string \<Rightarrow> string \<Rightarrow> string" where
  "path_join a b = a @ ''/'' @ b"

definition isVideo_of :: "config \<Rightarrow> bool" where
  "isVideo_of c = (forceVideo c \<or> isVideoPlatform (cfg_url c))"

definition isTorrent_of :: "config \<Rightarrow> bool" where
  "isTorrent_of c = startsWith (cfg_url c) ''magnet:''"

definition ytArgs :: "config \<Rightarrow> string list" where
  "ytArgs c =
     [''--newline'', ''--no-playlist'', ''--format'',
      js_or (formatCode c) ''bestvideo+bestaudio/best'',
      ''--merge-output-format'', ''mp4'', ''--output'',
      path_join downloadsDir (cfg_filename c @ ''.mp4''), cfg_url c]
     @ when_set (cookies c) (\<lambda>ck. [''--add-header'', ''Cookie: '' @ ck])
     @ (if noCheckCert c then [''--no-check-certificate''] else [])"

definition ffmpegArgs :: "config \<Rightarrow> string list" where
  "ffmpegArgs c =
     [''-headers'', ''User-Agent: '' @ defaultUA (ua c) @ [CHR 0x0D, CHR 0x0A], ''-i'', cfg_url c,
      ''-c'', ''copy'', ''-bsf:a'', ''aac_adtstoasc'',
      path_join downloadsDir (cfg_filename c @ ''.mp4'')]"

text \<open>
  What a call of \<open>startDownload\<close> comes to: the id is not in the table and the function
  returns at once; a worker is spawned; or an exception leaves the function.
\<close>

datatype outcome = NoSuchJob | Spawned | Threw

text \<open>\<open>proc = spawn(cmd, args)\<close> followed by \<open>download.process = proc\<close>.\<close>

definition spawn :: "jid \<Rightarrow> string \<Rightarrow> string list \<Rightarrow> download \<Rightarrow> engine \<Rightarrow> engine" where
  "spawn k cmd args d st =
     st\<lparr>objs := (objs st)(k \<mapsto> d\<lparr>process := Some (length (spawned st))\<rparr>),
        spawned := spawned st @ [(k, cmd, args)],
        workers := workers st @ [k]\<rparr>"

text \<open>
  \<open>startDownload(id)\<close>. The destructuring of \<open>download.config\<close> throws a TypeError when the
  entry has no config (before anything is written). The branch for aria2c evaluates
  \<open>parseInt(connections)\<close>, and \<open>connections\<close> is declared neither in the function (the
  destructuring of the config leaves it out) nor in the module: the evaluation throws a
  ReferenceError, after the status has been set and broadcast and before any worker is
  spawned.
\<close>

definition startDownload :: "jid \<Rightarrow> string \<Rightarrow> engine \<Rightarrow> engine \<times> outcome" where
  "startDownload k now st =
     (case table_get st k of
        None \<Rightarrow> (st, NoSuchJob)
      | Some d \<Rightarrow>
          (case config d of
             None \<Rightarrow> (st, Threw)
           | Some c \<Rightarrow>
               (let d1 = d\<lparr>info := (info d)\<lparr>status := ''downloading'', startedAt := Some now\<rparr>\<rparr>;
                    st1 = broadcast ''status-change'' (info d1) (st\<lparr>objs := (objs st)(k \<mapsto> d1)\<rparr>)
                in if isVideo_of c \<and> \<not> isTorrent_of c
                   then (spawn k ''yt-dlp'' (ytArgs c) d1 st1, Spawned)
                   else if isStreamUrl (cfg_url c) \<and> \<not> isTorrent_of c
                   then (spawn k ''ffmpeg'' (ffmpegArgs c) d1 st1, Spawned)
                   else (st1, Threw))))"

text \<open>
  \<open>processQueue()\<close>. The flag of the result tells that \<open>startDownload\<close> threw: the
  exception leaves \<open>processQueue\<close> too, so the recursive call is not made.
\<close>

function processQueue :: "settings \<Rightarrow> string \<Rightarrow> engine \<Rightarrow> engine \<times> bool" where
  "processQueue cf now st =
     (if runningCount st < MAX_CONCURRENT_DOWNLOADS cf \<and> downloadQueue st \<noteq> []
      then (let nextId = hd (downloadQueue st);
                st1 = st\<lparr>downloadQueue := tl (downloadQueue st), started := started st @ [nextId]\<rparr>;
                r = startDownload nextId now st1
            in if snd r = Threw then (fst r, True) else processQueue cf now (fst r))
      else (st, False))"
  by pat_completeness auto
termination
  by (relation "measure (\<lambda>(cf, now, st). length (downloadQueue st))")
    (auto simp: startDownload_def spawn_def broadcast_def saveState_def Let_def
      split: option.splits)

subsection \<open>The handlers of a worker\<close>

text \<open>
  The retry test of the \<open>close\<close> handler. \<open>code\<close> is the exit code, \<open>None\<close> when the
  worker was ended by a signal.
\<close>

definition transient :: "string \<Rightarrow> int option \<Rightarrow> bool" where
  "transient lastError code =
     (str_includes lastError ''503'' \<or> str_includes lastError ''Connection''
      \<or> str_includes lastError ''timeout'' \<or> str_includes lastError ''SSL''
      \<or> code = Some 3 \<or> code = Some 7)"

definition shouldRetry :: "settings \<Rightarrow> download \<Rightarrow> string \<Rightarrow> int option \<Rightarrow> bool" where
  "shouldRetry cf d lastError code = (retryCount d < RETRY_ATTEMPTS cf \<and> transient lastError code)"

text \<open>
  The error recorded on a final failure: the first line of the error output that contains
  \<open>error\<close> or \<open>failed\<close>, cut by \<open>substring(0, 200)\<close> to its first 200 code units, or the
  text made from the exit code when there is no such line.
\<close>

definition error_text :: "string \<Rightarrow> int option \<Rightarrow> errtext" where
  "error_text lastError code =
     (case filter isErrorLine (split_nl lastError) of
        [] \<Rightarrow> Echec code
      | l # ls \<Rightarrow> Text (take 200 l))"

text \<open>
  The \<open>close\<close> handler of the worker of job \<open>k\<close>, up to its first \<open>await\<close>. The handler
  works on the \<open>download\<close> object it closed over, whether or not the table still holds it.
  On exit code 0 it suspends (\<open>finishing\<close>); on a retry it arms the timer that calls
  \<open>startDownload(id)\<close> and returns; otherwise it records the error and removes the job.
\<close>

definition on_close :: "settings \<Rightarrow> jid \<Rightarrow> int option \<Rightarrow> string \<Rightarrow> string \<Rightarrow> engine \<Rightarrow> engine" where
  "on_close cf k code lastError now st =
     (case objs st k of
        None \<Rightarrow> st
      | Some d \<Rightarrow>
          if code = Some 0
          then (let d1 = d\<lparr>info := (info d)\<lparr>status := ''completed'', progress := 100,
                                             completedAt := Some now\<rparr>\<rparr>
                in st\<lparr>objs := (objs st)(k \<mapsto> d1), finishing := finishing st @ [k]\<rparr>)
          else if shouldRetry cf d lastError code
          then (let d1 = d\<lparr>retryCount := retryCount d + 1\<rparr>;
                    d2 = d1\<lparr>info := (info d1)\<lparr>status := ''retrying''\<rparr>\<rparr>;
                    st1 = broadcast ''update'' (info d2) (st\<lparr>objs := (objs st)(k \<mapsto> d2)\<rparr>)
                in st1\<lparr>timers := timers st1 @ [k]\<rparr>)
          else (let d1 = d\<lparr>info := (info d)\<lparr>status := ''error'',
                                             error := Some (error_text lastError code)\<rparr>\<rparr>;
                    st1 = broadcast ''status-change'' (info d1) (st\<lparr>objs := (objs st)(k \<mapsto> d1)\<rparr>)
                in st1\<lparr>activeDownloads := remove1 k (activeDownloads st1)\<rparr>))"

text \<open>
  The rest of the success path, after the awaits. \<open>stat\<close> is the result of \<open>fs.stat\<close>
  (the formatted size and the size in bytes, \<open>None\<close> when it failed); \<open>moved\<close> is
  \<open>path.basename(targetDir)\<close>, the last segment of the directory of the routing rule that
  matched, when the file was moved there (\<open>None\<close> when no rule matched or when \<open>mkdir\<close>
  or \<open>rename\<close> failed); \<open>date\<close> is the date of the history item.
\<close>

definition on_finish ::
  "settings \<Rightarrow> jid \<Rightarrow> (string \<times> nat) option \<Rightarrow> string option \<Rightarrow> string \<Rightarrow> engine \<Rightarrow> engine \<times> bool" where
  "on_finish cf k stat moved date st =
     (case objs st k of
        None \<Rightarrow> (st, False)
      | Some d \<Rightarrow>
          (case config d of
             None \<Rightarrow> (st, False)
           | Some c \<Rightarrow>
               (let finalFilename = cfg_filename c @ (if isVideo_of c \<and> \<not> isTorrent_of c then ''.mp4'' else []);
                    i1 = (case stat of None \<Rightarrow> info d
                          | Some (sz, bytes) \<Rightarrow> (info d)\<lparr>fullSize := sz, sizeBytes := Some bytes\<rparr>);
                    i2 = i1\<lparr>filename := (case moved of None \<Rightarrow> finalFilename
                                           | Some base \<Rightarrow> path_join base finalFilename)\<rparr>;
                    st1 = st\<lparr>objs := (objs st)(k \<mapsto> d\<lparr>info := i2\<rparr>),
                             historyList := historyList st @ [(i2, date)],
                             activeDownloads := remove1 k (activeDownloads st)\<rparr>;
                    st2 = broadcast ''status-change'' i2 st1
                in processQueue cf date st2)))"

text \<open>The \<open>error\<close> handler of the worker (the launch failed).\<close>

definition on_proc_error :: "settings \<Rightarrow> jid \<Rightarrow> string \<Rightarrow> string \<Rightarrow> engine \<Rightarrow> engine \<times> bool" where
  "on_proc_error cf k msg now st =
     (case objs st k of
        None \<Rightarrow> (st, False)
      | Some d \<Rightarrow>
          (let d1 = d\<lparr>info := (info d)\<lparr>status := ''error'', error := Some (Text msg)\<rparr>\<rparr>;
               st1 = broadcast ''status-change'' (info d1) (st\<lparr>objs := (objs st)(k \<mapsto> d1)\<rparr>);
               st2 = st1\<lparr>activeDownloads := remove1 k (activeDownloads st1)\<rparr>
           in processQueue cf now st2))"

text \<open>
  A chunk of worker output in which the progress pattern matched: for yt-dlp \<open>n\<close> is the
  floor of the percentage, for ffmpeg the number of seconds encoded. (The size, speed and
  eta fields written by the same handlers are not part of the model.)
\<close>

definition on_data :: "jid \<Rightarrow> nat \<Rightarrow> engine \<Rightarrow> engine" where
  "on_data k n st =
     (case objs st k of
        None \<Rightarrow> st
      | Some d \<Rightarrow>
          (case config d of
             None \<Rightarrow> st
           | Some c \<Rightarrow>
               (let p = (if isVideo_of c \<and> \<not> isTorrent_of c then min 100 n else min 99 (n div 10));
                    d1 = d\<lparr>info := (info d)\<lparr>progress := p\<rparr>\<rparr>
                in broadcast ''update'' (info d1) (st\<lparr>objs := (objs st)(k \<mapsto> d1)\<rparr>))))"

subsection \<open>The routes\<close>

text \<open>
  \<open>POST /download\<close> from the creation of the job on (the validation of the request, the
  HEAD probes and the computation of the file name come before and change no state);
  \<open>k\<close> is the fresh uuid. The answer carries \<open>queuePosition\<close>; there is none when
  \<open>processQueue\<close> threw.
\<close>

definition download_post :: "settings \<Rightarrow> jid \<Rightarrow> string \<Rightarrow> config \<Rightarrow> engine \<Rightarrow> engine \<times> nat option" where
  "download_post cf k now c st =
     (let downloadInfo = \<lparr>iid = k, url = cfg_url c, filename = cfg_filename c, status = ''queued'',
                           progress = 0, speed = ''0 KB/s'', eta = ''--'', currentSize = ''0 B'',
                           fullSize = ''???'', startedAt = None, completedAt = None, error = None,
                           sizeBytes = None\<rparr>;
          st1 = st\<lparr>objs := (objs st)(k \<mapsto> \<lparr>info = downloadInfo, config = Some c, process = None,
                                               retryCount = 0\<rparr>),
                   activeDownloads := table_set k (activeDownloads st),
                   downloadQueue := downloadQueue st @ [k],
                   submitted := submitted st @ [k]\<rparr>;
          st2 = broadcast ''update'' downloadInfo st1;
          r = processQueue cf now st2
      in (fst r, if snd r then None else Some (length (downloadQueue (fst r)))))"

text \<open>\<open>POST /cancel\<close>: the new state and the HTTP status of the answer.\<close>

definition cancel :: "string option \<Rightarrow> engine \<Rightarrow> engine \<times> nat" where
  "cancel idv st =
     (if \<not> truthy idv then (st, 400)
      else (case idv of
              None \<Rightarrow> (st, 400)
            | Some k \<Rightarrow>
                (case table_get st k of
                   None \<Rightarrow> (st, 404)
                 | Some d \<Rightarrow>
                     (let st1 = (case process d of None \<Rightarrow> st
                                 | Some p \<Rightarrow> st\<lparr>killed := killed st @ [p]\<rparr>);
                          d1 = d\<lparr>info := (info d)\<lparr>status := ''cancelled''\<rparr>\<rparr>;
                          st2 = broadcast ''status-change'' (info d1) (st1\<lparr>objs := (objs st1)(k \<mapsto> d1)\<rparr>)
                      in (st2\<lparr>activeDownloads := remove1 k (activeDownloads st2)\<rparr>, 200)))))"

text \<open>
  \<open>POST /cancel-all\<close>: the body of the \<open>forEach\<close> over the table, then \<open>clear\<close> and
  \<open>saveState\<close>; the result carries the counter \<open>cancelled\<close> of the answer.
\<close>

definition cancel_entry :: "engine \<times> nat \<Rightarrow> jid \<Rightarrow> engine \<times> nat" where
  "cancel_entry acc k =
     (case objs (fst acc) k of
        None \<Rightarrow> acc
      | Some d \<Rightarrow>
          (let st = fst acc;
               st1 = (case process d of None \<Rightarrow> st | Some p \<Rightarrow> st\<lparr>killed := killed st @ [p]\<rparr>);
               d1 = d\<lparr>info := (info d)\<lparr>status := ''cancelled''\<rparr>\<rparr>;
               st2 = broadcast ''status-change'' (info d1) (st1\<lparr>objs := (objs st1)(k \<mapsto> d1)\<rparr>)
           in (st2, snd acc + 1)))"

definition cancel_all :: "engine \<Rightarrow> engine \<times> nat" where
  "cancel_all st =
     (let r = foldl cancel_entry (st, 0) (activeDownloads st)
      in (saveState ((fst r)\<lparr>activeDownloads := []\<rparr>), snd r))"

subsection \<open>Runs of the server\<close>

text \<open>
  The server is single-threaded: its state changes one handler at a time, each handler
  running from the event that triggers it to its next \<open>await\<close> or its end. An event
  carries what the environment supplies (the fresh uuid and the accepted request, the exit
  code and the collected error output, the clock reading). An event happens only when the
  environment can produce it: a uuid is submitted once, a worker closes only while it is
  alive, a timer fires only while it is armed.
\<close>

datatype event =
    Submit jid string config
  | Data jid nat
  | Close jid "int option" string string
  | Finish jid "(string \<times> nat) option" "string option" string
  | ProcError jid string string
  | RetryTimer jid string
  | Cancel "string option"
  | CancelAll

definition step :: "settings \<Rightarrow> engine \<Rightarrow> event \<Rightarrow> engine" where
  "step cf st ev =
     (case ev of
        Submit k now c \<Rightarrow> if objs st k = None then fst (download_post cf k now c st) else st
      | Data k n \<Rightarrow> if k \<in> set (workers st) then on_data k n st else st
      | Close k code lastError now \<Rightarrow>
          if k \<in> set (workers st)
          then on_close cf k code lastError now (st\<lparr>workers := remove1 k (workers st)\<rparr>)
          else st
      | Finish k stat moved date \<Rightarrow>
          if k \<in> set (finishing st)
          then fst (on_finish cf k stat moved date (st\<lparr>finishing := remove1 k (finishing st)\<rparr>))
          else st
      | ProcError k msg now \<Rightarrow>
          if k \<in> set (workers st) then fst (on_proc_error cf k msg now st) else st
      | RetryTimer k now \<Rightarrow>
          if k \<in> set (timers st)
          then fst (startDownload k now (st\<lparr>timers := remove1 k (timers st)\<rparr>))
          else st
      | Cancel idv \<Rightarrow> fst (cancel idv st)
      | CancelAll \<Rightarrow> fst (cancel_all st))"

text \<open>The server after start-up on the persisted files, and after a sequence of events.\<close>

definition boot :: "info list option \<Rightarrow> (info \<times> string) list option \<Rightarrow> engine" where
  "boot data hist = loadState data hist empty_engine"

definition run :: "settings \<Rightarrow> engine \<Rightarrow> event list \<Rightarrow> engine" where
  "run cf st evs = foldl (step cf) st evs"

subsection \<open>Artifact retrieval\<close>








section \<open>The first server (server.js)\<close>

text \<open>
  The first server has no queue: \<open>POST /download\<close> calls \<open>launch()\<close> at once, and
  \<open>launch(retryCount)\<close> closes over the \<open>downloadInfo\<close> of the request. Modelled here are
  the argument list it builds for aria2c and its \<open>close\<close> handler. The request fields are
  those of \<open>config\<close> (the fields the first server does not have are not read);
  \<open>maxFileSize\<close> is the constant \<open>MAX_FILE_SIZE\<close> and \<open>retryCount'\<close> the parameter
  \<open>retryCount\<close> of \<open>launch\<close>.
\<close>

definition isYouTube :: "string \<Rightarrow> bool" where
  "isYouTube u = (str_includes u ''googlevideo.com'' \<or> str_includes u ''youtube.com'')"

definition launch_aria2c_args :: "string \<Rightarrow> config \<Rightarrow> nat \<Rightarrow> string list" where
  "launch_aria2c_args maxFileSize c retryCount' =
     [''--console-log-level=notice'', ''--summary-interval=1'', ''--dir'', downloadsDir,
      ''--out'', cfg_filename c, ''--user-agent'', defaultUA (ua c), ''--max-tries'', ''5'',
      ''--retry-wait'', ''3'']
     @ when_set (referer c) (\<lambda>r. [''--referer'', r])
     @ (if isYouTube (cfg_url c) \<or> 0 < retryCount' \<or> singleSegment c
        then [''--max-connection-per-server=1'', ''--split=1'']
        else [''--max-connection-per-server=16'', ''--split=16''])
     @ when_set (cookies c) (\<lambda>ck. [''--header'', ''Cookie: '' @ ck])
     @ (if noCheckCert c then [''--check-certificate=false''] else [])
     @ (if maxFileSize \<noteq> [] then [''--max-download-limit'', maxFileSize] else [])
     @ [cfg_url c]"

text \<open>
  The \<open>close\<close> handler of \<open>launch(retryCount)\<close>: the new \<open>downloadInfo\<close> and what follows,
  either the final broadcast and the removal from the table, or the broadcast of the
  retry and the timer that calls \<open>launch(retryCount + 1)\<close>.
\<close>

datatype after_close = Removed | Relaunch nat

definition launch_close ::
  "settings \<Rightarrow> nat \<Rightarrow> int option \<Rightarrow> string \<Rightarrow> string \<Rightarrow> info \<Rightarrow> info \<times> after_close" where
  "launch_close cf retryCount' code lastError now downloadInfo =
     (if code = Some 0
      then (downloadInfo\<lparr>status := ''completed'', progress := 100, completedAt := Some now\<rparr>, Removed)
      else if retryCount' < RETRY_ATTEMPTS cf \<and> transient lastError code
      then (downloadInfo\<lparr>status := ''retrying''\<rparr>, Relaunch (retryCount' + 1))
      else (downloadInfo\<lparr>status := ''error'', error := Some (error_text lastError code)\<rparr>, Removed))"

section \<open>Invariants of a run\<close>

text \<open>
  The count of \<open>processQueue\<close> as a function of the store and the key list.
\<close>

definition rc :: "(jid \<Rightarrow> download option) \<Rightarrow> jid list \<Rightarrow> nat" where
  "rc h ks = length (filter is_running (List.map_filter h ks))"

text \<open>
  What every state of a run satisfies besides the bound on the count: the keys of the
  table and of the queue are distinct; every id the server holds anywhere has its object;
  a job waiting in the queue has neither a live worker nor an armed retry timer; a job in
  the table has at most one of the two, and when it has one its status is
  \<open>downloading\<close> or \<open>retrying\<close>.
\<close>

definition wf :: "engine \<Rightarrow> bool" where
  "wf st =
     (distinct (activeDownloads st) \<and> distinct (downloadQueue st)
      \<and> (\<forall>k. k \<in> set (activeDownloads st) \<or> k \<in> set (downloadQueue st)
               \<or> k \<in> set (workers st) \<or> k \<in> set (timers st) \<longrightarrow> objs st k \<noteq> None)
      \<and> (\<forall>k. k \<in> set (downloadQueue st) \<longrightarrow> k \<notin> set (workers st) \<and> k \<notin> set (timers st))
      \<and> (\<forall>k. k \<in> set (activeDownloads st) \<longrightarrow>
               count_list (workers st) k + count_list (timers st) k \<le> 1)
      \<and> (\<forall>k d. k \<in> set (activeDownloads st) \<longrightarrow> k \<in> set (workers st) \<or> k \<in> set (timers st) \<longrightarrow>
                 objs st k = Some d \<longrightarrow> is_running d))"

definition inv :: "settings \<Rightarrow> engine \<Rightarrow> bool" where
  "inv cf st = (runningCount st \<le> MAX_CONCURRENT_DOWNLOADS cf \<and> wf st)"




text \<open>
  A job that can no longer be started: it has its object, and it is out of the table or
  was loaded from the state file (it has no config). \<open>spawns_of\<close> are the \<open>spawn\<close>
  calls made for a job.
\<close>

definition dead :: "engine \<Rightarrow> jid \<Rightarrow> bool" where
  "dead st k = (\<exists>d. objs st k = Some d \<and> (k \<notin> set (activeDownloads st) \<or> config d = None))"

definition spawns_of :: "engine \<Rightarrow> jid \<Rightarrow> (jid \<times> string \<times> string list) list" where
  "spawns_of st k = filter (\<lambda>e. fst e = k) (spawned st)"

text \<open>The status and the retry count of the job object of an id, and the backend test.\<close>

definition status_of :: "engine \<Rightarrow> jid \<Rightarrow> string option" where
  "status_of st k = map_option (status \<circ> info) (objs st k)"

definition retries_of :: "engine \<Rightarrow> jid \<Rightarrow> nat option" where
  "retries_of st k = map_option retryCount (objs st k)"

text \<open>The job is served by yt-dlp or by ffmpeg: the first two branches of \<open>startDownload\<close>.\<close>

definition has_worker_branch :: "config \<Rightarrow> bool" where
  "has_worker_branch c = ((isVideo_of c \<or> isStreamUrl (cfg_url c)) \<and> \<not> isTorrent_of c)"

text \<open>
  A live worker or an armed retry timer belongs to a job that has a config and is served
  by yt-dlp or ffmpeg: \<open>startDownload\<close> spawns in no other branch.
\<close>

definition branch_ok :: "engine \<Rightarrow> bool" where
  "branch_ok st =
     (\<forall>k. k \<in> set (workers st) \<or> k \<in> set (timers st) \<longrightarrow>
          (\<exists>d c. objs st k = Some d \<and> config d = Some c \<and> has_worker_branch c))"

text \<open>
  The count of the attempts of a job: no worker was ever spawned for an id that has no
  object; an id has at most one live worker or armed retry timer; a job with a live worker
  has been spawned once more than it has been retried, a job whose retry timer is armed as
  often as it has been retried, and a job that waits in the queue never.
\<close>

definition attempts_ok :: "engine \<Rightarrow> bool" where
  "attempts_ok st =
     ((\<forall>k. objs st k = None \<longrightarrow> spawns_of st k = [])
      \<and> (\<forall>k. count_list (workers st) k + count_list (timers st) k \<le> 1)
      \<and> (\<forall>k d. objs st k = Some d \<longrightarrow>
             (k \<in> set (workers st) \<longrightarrow> length (spawns_of st k) = retryCount d + 1)
           \<and> (k \<in> set (timers st) \<longrightarrow> length (spawns_of st k) = retryCount d)
           \<and> (k \<in> set (downloadQueue st) \<longrightarrow> spawns_of st k = [] \<and> retryCount d = 0)))"

text \<open>
  No job has been retried more often than the settings allow, nor spawned more than once
  for its first attempt and once for each retry.
\<close>

definition attempts_bound :: "settings \<Rightarrow> engine \<Rightarrow> bool" where
  "attempts_bound cf st =
     (\<forall>k d. objs st k = Some d \<longrightarrow>
        retryCount d \<le> RETRY_ATTEMPTS cf \<and> length (spawns_of st k) \<le> retryCount d + 1)"

text \<open>
  What holds of a key once the loop of cancel-all has passed it: its object is
  \<open>cancelled\<close>, with the worker handle and the config it had, and the handle, if there is
  one, has been sent SIGTERM.
\<close>

definition cancelled_at :: "engine \<Rightarrow> engine \<Rightarrow> jid \<Rightarrow> bool" where
  "cancelled_at st st' k =
     (\<exists>d d'. objs st k = Some d \<and> objs st' k = Some d' \<and> status (info d') = ''cancelled''
        \<and> process d' = process d \<and> config d' = config d
        \<and> (\<forall>p. process d = Some p \<longrightarrow> p \<in> set (killed st')))"

text \<open>The table entry that \<open>loadState\<close> creates for a saved info.\<close>

definition loaded :: "info \<Rightarrow> download" where
  "loaded i = \<lparr>info = restore i, config = None, process = None, retryCount = 0\<rparr>"

section \<open>Sample requests and settings\<close>

text \<open>
  A request for a video-platform URL (served by yt-dlp), one for a stream manifest (served
  by ffmpeg) and one for a plain file (the aria2c branch), each with no optional field,
  and the settings with a concurrency limit of one and the default two retries.
\<close>

definition video_req :: "string \<Rightarrow> config" where
  "video_req n = \<lparr>cfg_url = ''https://vimeo.com/'' @ n, referer = None, ua = None, noCheckCert = False,
     customFilename = None, singleSegment = False, cookies = None, cfg_filename = n,
     forceVideo = False, connections = None, formatCode = None\<rparr>"

definition stream_req :: "string \<Rightarrow> config" where
  "stream_req n = \<lparr>cfg_url = ''https://h.io/'' @ n @ ''.m3u8'', referer = None, ua = None,
     noCheckCert = False, customFilename = None, singleSegment = False, cookies = None,
     cfg_filename = n, forceVideo = False, connections = None, formatCode = None\<rparr>"

definition direct_req :: "string \<Rightarrow> bool \<Rightarrow> config" where
  "direct_req n single = \<lparr>cfg_url = ''https://h.io/'' @ n @ ''.bin'', referer = None, ua = None,
     noCheckCert = False, customFilename = None, singleSegment = single, cookies = None,
     cfg_filename = n, forceVideo = False, connections = None, formatCode = None\<rparr>"

definition one_slot :: settings where
  "one_slot = \<lparr>MAX_CONCURRENT_DOWNLOADS = 1, RETRY_ATTEMPTS = 2\<rparr>"

definition two_submits :: "event list" where
  "two_submits = [Submit ''A'' ''t0'' (video_req ''a''), Submit ''B'' ''t1'' (video_req ''b'')]"


text \<open>A state file with a job saved while downloading and one saved as completed.\<close>

definition saved_job :: "jid \<Rightarrow> string \<Rightarrow> info" where
  "saved_job k s = \<lparr>iid = k, url = ''https://h.io/f'', filename = ''f'', status = s, progress = 40,
     speed = ''1MiB/s'', eta = ''9s'', currentSize = ''4MiB'', fullSize = ''10MiB'',
     startedAt = Some ''t0'', completedAt = None, error = None, sizeBytes = None\<rparr>"

definition saved_jobs :: "info list" where
  "saved_jobs = [saved_job ''L1'' ''downloading'', saved_job ''L2'' ''completed'']"

text \<open>One video job, submitted and at 40 percent.\<close>

definition at_forty :: engine where
  "at_forty = run one_slot (boot None None) [Submit ''A'' ''t0'' (video_req ''a''), Data ''A'' 40]"

text \<open>
  Two video jobs with one slot: the first fails for good (exit code 1, no error output),
  is cancelled, or succeeds.
\<close>

definition first_fails :: "event list" where
  "first_fails = two_submits @ [Close ''A'' (Some 1) [] ''t2'']"

definition first_cancelled :: "event list" where
  "first_cancelled = two_submits @ [Cancel (Some ''A'')]"

definition first_succeeds :: "event list" where
  "first_succeeds = two_submits @ [Close ''A'' (Some 0) [] ''t2'', Finish ''A'' None None ''t3'']"

text \<open>A plain file requested in single-segment mode.\<close>

definition single_segment_run :: "event list" where
  "single_segment_run = [Submit ''D'' ''t0'' (direct_req ''d'' True)]"

text \<open>One video job, submitted and started.\<close>

definition started_a :: engine where
  "started_a = run one_slot (boot None None) [Submit ''A'' ''t0'' (video_req ''a'')]"

definition three_failures :: "event list" where
  "three_failures =
     [Close ''A'' (Some 1) ''HTTP 503'' ''t1'', RetryTimer ''A'' ''t2'',
      Close ''A'' (Some 7) [] ''t3'', RetryTimer ''A'' ''t4'',
      Close ''A'' (Some 1) ''SSL error'' ''t5'']"

text \<open>A third video job, submitted after a cancel-all.\<close>

definition third_submit :: "event list" where
  "third_submit = [Submit ''C'' ''t3'' (video_req ''c'')]"

text \<open>
  The worker of the video job at 40 percent exits with code 0, and a cancel request, or a
  cancel-all request, is handled while the \<open>close\<close> handler is suspended at its first
  \<open>await\<close>; then the handler resumes.
\<close>

definition cancel_after_exit :: "event list" where
  "cancel_after_exit =
     [Close ''A'' (Some 0) [] ''t1'', Cancel (Some ''A''), Finish ''A'' None None ''t2'']"

definition cancel_all_after_exit :: "event list" where
  "cancel_all_after_exit =
     [Close ''A'' (Some 0) [] ''t1'', CancelAll, Finish ''A'' None None ''t2'']"

text \<open>The same exit with no request in between.\<close>

definition exit_undisturbed :: "event list" where
  "exit_undisturbed = [Close ''A'' (Some 0) [] ''t1'', Finish ''A'' None None ''t2'']"




text \<open>A stream job that runs to completion, no routing rule matching.\<close>

definition stream_done :: "event list" where
  "stream_done =
     [Submit ''C'' ''t0'' (stream_req ''c''), Close ''C'' (Some 0) [] ''t1'',
      Finish ''C'' None None ''t2'']"

section \<open>Preservation of the invariants\<close>

declare processQueue.simps [simp del]

lemma runningCount_rc: "runningCount st = rc (objs st) (activeDownloads st)"
  by (simp add: runningCount_def table_values_def rc_def)

lemma rc_Nil [simp]: "rc h [] = 0"
  by (simp add: rc_def List.map_filter_simps)

lemma rc_Cons:
  "rc h (x # ks) = (case h x of None \<Rightarrow> 0 | Some d \<Rightarrow> if is_running d then 1 else 0) + rc h ks"
  by (simp add: rc_def List.map_filter_simps split: option.splits)

lemma rc_append: "rc h (ks @ ls) = rc h ks + rc h ls"
  by (induction ks) (simp_all add: rc_Cons)

lemma rc_upd_notin: "k \<notin> set ks \<Longrightarrow> rc (h(k := v)) ks = rc h ks"
  by (induction ks) (auto simp: rc_Cons)

lemma rc_upd_le1: "distinct ks \<Longrightarrow> rc (h(k \<mapsto> d)) ks \<le> Suc (rc h ks)"
  by (induction ks) (auto simp: rc_Cons rc_upd_notin split: option.splits)

lemma rc_upd_le:
  "(is_running d \<Longrightarrow> k \<in> set ks \<Longrightarrow> \<exists>d0. h k = Some d0 \<and> is_running d0) \<Longrightarrow> rc (h(k \<mapsto> d)) ks \<le> rc h ks"
  by (induction ks) (auto simp: rc_Cons split: option.splits)

lemma rc_remove1: "rc h (remove1 k ks) \<le> rc h ks"
  by (induction ks) (auto simp: rc_Cons)


text \<open>What startDownload changes.\<close>

lemma startDownload_effect:
  "activeDownloads (fst (startDownload k now st)) = activeDownloads st
   \<and> downloadQueue (fst (startDownload k now st)) = downloadQueue st
   \<and> timers (fst (startDownload k now st)) = timers st
   \<and> ((objs (fst (startDownload k now st)) = objs st \<and> workers (fst (startDownload k now st)) = workers st)
      \<or> (\<exists>d d'. k \<in> set (activeDownloads st) \<and> objs st k = Some d
            \<and> objs (fst (startDownload k now st)) = (objs st)(k \<mapsto> d') \<and> is_running d'
            \<and> (workers (fst (startDownload k now st)) = workers st
               \<or> workers (fst (startDownload k now st)) = workers st @ [k])))"
  by (auto simp: startDownload_def spawn_def broadcast_def saveState_def Let_def table_get_def
      is_running_def split: option.splits if_splits)

lemma startDownload_rc_le1:
  assumes "distinct (activeDownloads st)"
  shows "runningCount (fst (startDownload k now st)) \<le> runningCount st + 1"
  using startDownload_effect [of k now st] assms
  by (auto simp: runningCount_rc rc_upd_le1)

lemma startDownload_rc_le:
  assumes "k \<in> set (activeDownloads st) \<Longrightarrow> \<exists>d. objs st k = Some d \<and> is_running d"
  shows "runningCount (fst (startDownload k now st)) \<le> runningCount st"
  using startDownload_effect [of k now st] assms
  by (auto simp: runningCount_rc intro!: rc_upd_le)

lemma count_list_0: "k \<notin> set xs \<Longrightarrow> count_list xs k = 0"
  by (induction xs) auto

lemma startDownload_wf:
  assumes "wf st" and "k \<in> set (activeDownloads st) \<Longrightarrow> k \<notin> set (workers st) \<and> k \<notin> set (timers st)"
    and "k \<notin> set (downloadQueue st)"
  shows "wf (fst (startDownload k now st))"
proof -
  let ?st' = "fst (startDownload k now st)"
  from startDownload_effect [of k now st]
  have a: "activeDownloads ?st' = activeDownloads st" and q: "downloadQueue ?st' = downloadQueue st"
    and t: "timers ?st' = timers st"
    and c: "(objs ?st' = objs st \<and> workers ?st' = workers st)
      \<or> (\<exists>d d'. k \<in> set (activeDownloads st) \<and> objs st k = Some d
            \<and> objs ?st' = (objs st)(k \<mapsto> d') \<and> is_running d'
            \<and> (workers ?st' = workers st \<or> workers ?st' = workers st @ [k]))"
    by blast+
  from c show ?thesis
  proof
    assume "objs ?st' = objs st \<and> workers ?st' = workers st"
    with a q t assms(1) show ?thesis by (simp add: wf_def)
  next
    assume "\<exists>d d'. k \<in> set (activeDownloads st) \<and> objs st k = Some d
            \<and> objs ?st' = (objs st)(k \<mapsto> d') \<and> is_running d'
            \<and> (workers ?st' = workers st \<or> workers ?st' = workers st @ [k])"
    then obtain d d' where k: "k \<in> set (activeDownloads st)" and o: "objs ?st' = (objs st)(k \<mapsto> d')"
      and r: "is_running d'" and w: "workers ?st' = workers st \<or> workers ?st' = workers st @ [k]"
      by blast
    from assms(2) k have nk: "k \<notin> set (workers st)" "k \<notin> set (timers st)" by auto
    from w show ?thesis
    proof
      assume "workers ?st' = workers st"
      with a q t o r assms(1) show ?thesis by (auto simp: wf_def)
    next
      assume "workers ?st' = workers st @ [k]"
      with a q t o r assms(1,3) nk show ?thesis by (auto simp: wf_def count_list_0)
    qed
  qed
qed


lemma processQueue_preserves:
  assumes "P st"
    and "\<And>s. P s \<Longrightarrow> runningCount s < MAX_CONCURRENT_DOWNLOADS cf \<Longrightarrow> downloadQueue s \<noteq> [] \<Longrightarrow>
           P (fst (startDownload (hd (downloadQueue s)) now
                (s\<lparr>downloadQueue := tl (downloadQueue s), started := started s @ [hd (downloadQueue s)]\<rparr>)))"
  shows "P (fst (processQueue cf now st))"
  using assms
proof (induction cf now st rule: processQueue.induct)
  case (1 cf now st)
  show ?case
  proof (cases "runningCount st < MAX_CONCURRENT_DOWNLOADS cf \<and> downloadQueue st \<noteq> []")
    case False
    with "1.prems"(1) show ?thesis by (subst processQueue.simps) auto
  next
    case go: True
    let ?st1 = "st\<lparr>downloadQueue := tl (downloadQueue st), started := started st @ [hd (downloadQueue st)]\<rparr>"
    let ?r = "startDownload (hd (downloadQueue st)) now ?st1"
    have p: "P (fst ?r)" using "1.prems"(2) [of st] go "1.prems"(1) by simp
    show ?thesis
    proof (cases "snd ?r = Threw")
      case True
      with go p show ?thesis by (subst processQueue.simps) (simp add: Let_def)
    next
      case False
      with go have "processQueue cf now st = processQueue cf now (fst ?r)"
        by (subst processQueue.simps) (simp add: Let_def)
      moreover have "P (fst (processQueue cf now (fst ?r)))"
        using "1.IH" [OF go refl refl refl False p] "1.prems"(2) by blast
      ultimately show ?thesis by simp
    qed
  qed
qed

lemma pop_wf:
  assumes "wf s" "downloadQueue s \<noteq> []"
  shows "wf (s\<lparr>downloadQueue := tl (downloadQueue s), started := started s @ [hd (downloadQueue s)]\<rparr>)"
  using assms by (cases "downloadQueue s") (auto simp: wf_def)

lemma promote_inv:
  assumes "inv cf s" "runningCount s < MAX_CONCURRENT_DOWNLOADS cf" "downloadQueue s \<noteq> []"
  shows "inv cf (fst (startDownload (hd (downloadQueue s)) now
                (s\<lparr>downloadQueue := tl (downloadQueue s), started := started s @ [hd (downloadQueue s)]\<rparr>)))"
proof -
  let ?s1 = "s\<lparr>downloadQueue := tl (downloadQueue s), started := started s @ [hd (downloadQueue s)]\<rparr>"
  let ?k = "hd (downloadQueue s)"
  from assms have w: "wf s" by (simp add: inv_def)
  have w1: "wf ?s1" using pop_wf [OF w assms(3)] .
  from assms(3) have kq: "?k \<in> set (downloadQueue s)" by simp
  from w kq have nk: "?k \<notin> set (workers ?s1) \<and> ?k \<notin> set (timers ?s1)" by (simp add: wf_def)
  from w assms(3) have nq: "?k \<notin> set (downloadQueue ?s1)"
    by (cases "downloadQueue s") (auto simp: wf_def)
  have "wf (fst (startDownload ?k now ?s1))"
    using startDownload_wf [OF w1 _ nq] nk by blast
  moreover have "runningCount (fst (startDownload ?k now ?s1)) \<le> runningCount ?s1 + 1"
    using startDownload_rc_le1 [of ?s1 ?k now] w by (simp add: wf_def)
  moreover have "runningCount ?s1 = runningCount s" by (simp add: runningCount_rc)
  ultimately show ?thesis using assms(2) by (simp add: inv_def)
qed

lemma processQueue_inv: "inv cf st \<Longrightarrow> inv cf (fst (processQueue cf now st))"
  by (rule processQueue_preserves [where P = "inv cf"]) (auto intro: promote_inv)


lemma remove1_count_le: "count_list (remove1 k xs) j \<le> count_list xs j"
  by (induction xs) auto

lemma count_remove1_in: "k \<in> set xs \<Longrightarrow> count_list (remove1 k xs) k = count_list xs k - 1"
  by (induction xs) auto

lemma count_pos: "k \<in> set xs \<Longrightarrow> count_list xs k \<ge> 1"
  by (induction xs) auto

lemma submit_inv:
  assumes "inv cf st" "objs st k = None"
  shows "inv cf (fst (download_post cf k now c st))"
proof -
  from assms have w: "wf st" and r: "runningCount st \<le> MAX_CONCURRENT_DOWNLOADS cf"
    by (simp_all add: inv_def)
  from w assms(2) have fresh: "k \<notin> set (activeDownloads st)" "k \<notin> set (downloadQueue st)"
    "k \<notin> set (workers st)" "k \<notin> set (timers st)"
    by (auto simp: wf_def)
  let ?d = "\<lparr>info = \<lparr>iid = k, url = cfg_url c, filename = cfg_filename c, status = ''queued'',
                           progress = 0, speed = ''0 KB/s'', eta = ''--'', currentSize = ''0 B'',
                           fullSize = ''???'', startedAt = None, completedAt = None, error = None,
                           sizeBytes = None\<rparr>, config = Some c, process = None, retryCount = 0\<rparr>"
  let ?st1 = "st\<lparr>objs := (objs st)(k \<mapsto> ?d),
                   activeDownloads := table_set k (activeDownloads st),
                   downloadQueue := downloadQueue st @ [k],
                   submitted := submitted st @ [k]\<rparr>"
  let ?st2 = "broadcast ''update'' (info ?d) ?st1"
  have v: "objs ?st2 = (objs st)(k \<mapsto> ?d)" "activeDownloads ?st2 = activeDownloads st @ [k]"
    "downloadQueue ?st2 = downloadQueue st @ [k]" "workers ?st2 = workers st" "timers ?st2 = timers st"
    using fresh by (simp_all add: broadcast_def saveState_def Let_def table_set_def)
  have "wf ?st2"
    unfolding wf_def v using w fresh by (auto simp: wf_def count_list_0)
  moreover have "runningCount ?st2 = runningCount st"
    unfolding runningCount_rc v using fresh
    by (simp add: rc_append rc_upd_notin rc_Cons is_running_def)
  ultimately have "inv cf ?st2" using r by (simp add: inv_def)
  then have "inv cf (fst (processQueue cf now ?st2))" by (rule processQueue_inv)
  then show ?thesis by (simp add: download_post_def Let_def)
qed

lemma wfI:
  assumes "distinct (activeDownloads st)" "distinct (downloadQueue st)"
    "\<And>k. k \<in> set (activeDownloads st) \<or> k \<in> set (downloadQueue st)
               \<or> k \<in> set (workers st) \<or> k \<in> set (timers st) \<Longrightarrow> objs st k \<noteq> None"
    "\<And>k. k \<in> set (downloadQueue st) \<Longrightarrow> k \<notin> set (workers st) \<and> k \<notin> set (timers st)"
    "\<And>k. k \<in> set (activeDownloads st) \<Longrightarrow> count_list (workers st) k + count_list (timers st) k \<le> 1"
    "\<And>k d. k \<in> set (activeDownloads st) \<Longrightarrow> k \<in> set (workers st) \<or> k \<in> set (timers st) \<Longrightarrow>
                 objs st k = Some d \<Longrightarrow> is_running d"
  shows "wf st"
  unfolding wf_def using assms by blast

lemma wf_distinct: "wf st \<Longrightarrow> distinct (activeDownloads st) \<and> distinct (downloadQueue st)"
  by (simp add: wf_def)

lemma wf_known:
  "wf st \<Longrightarrow> k \<in> set (activeDownloads st) \<or> k \<in> set (downloadQueue st)
               \<or> k \<in> set (workers st) \<or> k \<in> set (timers st) \<Longrightarrow> objs st k \<noteq> None"
  unfolding wf_def by blast

lemma wf_queue: "wf st \<Longrightarrow> k \<in> set (downloadQueue st) \<Longrightarrow> k \<notin> set (workers st) \<and> k \<notin> set (timers st)"
  unfolding wf_def by blast

lemma wf_count:
  "wf st \<Longrightarrow> k \<in> set (activeDownloads st) \<Longrightarrow> count_list (workers st) k + count_list (timers st) k \<le> 1"
  unfolding wf_def by blast

lemma wf_running:
  "wf st \<Longrightarrow> k \<in> set (activeDownloads st) \<Longrightarrow> k \<in> set (workers st) \<or> k \<in> set (timers st) \<Longrightarrow>
     objs st k = Some d \<Longrightarrow> is_running d"
  unfolding wf_def by blast

lemma close_inv:
  assumes "inv cf st" "k \<in> set (workers st)"
  shows "inv cf (on_close cf k code lastError now (st\<lparr>workers := remove1 k (workers st)\<rparr>))"
proof -
  from assms have w: "wf st" and r: "runningCount st \<le> MAX_CONCURRENT_DOWNLOADS cf"
    by (simp_all add: inv_def)
  from wf_known [OF w] assms(2) obtain d where d: "objs st k = Some d" by blast
  let ?st0 = "st\<lparr>workers := remove1 k (workers st)\<rparr>"
  let ?st' = "on_close cf k code lastError now ?st0"
  have kq: "k \<notin> set (downloadQueue st)" using wf_queue [OF w, of k] assms(2) by blast
  have run: "k \<in> set (activeDownloads st) \<Longrightarrow> is_running d"
    using wf_running [OF w, of k d] assms(2) d by blast
  have cnt: "k \<in> set (activeDownloads st) \<Longrightarrow> count_list (workers st) k = 1 \<and> count_list (timers st) k = 0"
    using wf_count [OF w, of k] count_pos [OF assms(2)] by linarith
  have nw: "k \<in> set (activeDownloads st) \<Longrightarrow> k \<notin> set (remove1 k (workers st)) \<and> k \<notin> set (timers st)"
  proof -
    assume a: "k \<in> set (activeDownloads st)"
    from cnt [OF a] have "count_list (remove1 k (workers st)) k = 0"
      using count_remove1_in [OF assms(2)] by simp
    moreover from cnt [OF a] have "count_list (timers st) k = 0" by simp
    ultimately show ?thesis
      using count_pos [of k "remove1 k (workers st)"] count_pos [of k "timers st"] by fastforce
  qed
  have sub: "\<And>j. j \<in> set (remove1 k (workers st)) \<Longrightarrow> j \<in> set (workers st)"
    by (meson notin_set_remove1)
  have cle: "\<And>j. j \<in> set (activeDownloads st) \<Longrightarrow>
      count_list (remove1 k (workers st)) j + count_list (timers st) j \<le> 1"
    using wf_count [OF w] remove1_count_le [of k "workers st"] by (meson add_le_mono1 order_trans)
  consider (ok) "code = Some 0" | (retry) "code \<noteq> Some 0" "shouldRetry cf d lastError code"
    | (fail) "code \<noteq> Some 0" "\<not> shouldRetry cf d lastError code" by blast
  then show ?thesis
  proof cases
    case ok
    let ?d1 = "d\<lparr>info := (info d)\<lparr>status := ''completed'', progress := 100, completedAt := Some now\<rparr>\<rparr>"
    have v: "objs ?st' = (objs st)(k \<mapsto> ?d1)" "activeDownloads ?st' = activeDownloads st"
      "downloadQueue ?st' = downloadQueue st" "workers ?st' = remove1 k (workers st)" "timers ?st' = timers st"
      using ok d by (simp_all add: on_close_def Let_def)
    have "wf ?st'"
    proof (rule wfI; unfold v)
      show "distinct (activeDownloads st)" "distinct (downloadQueue st)"
        using wf_distinct [OF w] by simp_all
    next
      fix j assume "j \<in> set (activeDownloads st) \<or> j \<in> set (downloadQueue st)
               \<or> j \<in> set (remove1 k (workers st)) \<or> j \<in> set (timers st)"
      then show "((objs st)(k \<mapsto> ?d1)) j \<noteq> None" using wf_known [OF w, of j] sub by auto
    next
      fix j assume "j \<in> set (downloadQueue st)"
      then show "j \<notin> set (remove1 k (workers st)) \<and> j \<notin> set (timers st)"
        using wf_queue [OF w, of j] sub by blast
    next
      fix j assume "j \<in> set (activeDownloads st)"
      then show "count_list (remove1 k (workers st)) j + count_list (timers st) j \<le> 1" by (rule cle)
    next
      fix j e assume j: "j \<in> set (activeDownloads st)" "j \<in> set (remove1 k (workers st)) \<or> j \<in> set (timers st)"
        "((objs st)(k \<mapsto> ?d1)) j = Some e"
      show "is_running e"
      proof (cases "j = k")
        case True
        with j nw show ?thesis by blast
      next
        case False
        with j wf_running [OF w, of j e] sub show ?thesis by auto
      qed
    qed
    moreover have "runningCount ?st' \<le> runningCount st"
      unfolding runningCount_rc v by (rule rc_upd_le) (simp add: is_running_def)
    ultimately show ?thesis using r by (simp add: inv_def)
  next
    case retry
    let ?d2 = "d\<lparr>retryCount := retryCount d + 1, info := (info d)\<lparr>status := ''retrying''\<rparr>\<rparr>"
    have v: "objs ?st' = (objs st)(k \<mapsto> ?d2)" "activeDownloads ?st' = activeDownloads st"
      "downloadQueue ?st' = downloadQueue st" "workers ?st' = remove1 k (workers st)"
      "timers ?st' = timers st @ [k]"
      using retry d by (simp_all add: on_close_def Let_def broadcast_def saveState_def)
    have "wf ?st'"
    proof (rule wfI; unfold v)
      show "distinct (activeDownloads st)" "distinct (downloadQueue st)"
        using wf_distinct [OF w] by simp_all
    next
      fix j assume "j \<in> set (activeDownloads st) \<or> j \<in> set (downloadQueue st)
               \<or> j \<in> set (remove1 k (workers st)) \<or> j \<in> set (timers st @ [k])"
      then show "((objs st)(k \<mapsto> ?d2)) j \<noteq> None" using wf_known [OF w, of j] sub by auto
    next
      fix j assume "j \<in> set (downloadQueue st)"
      then show "j \<notin> set (remove1 k (workers st)) \<and> j \<notin> set (timers st @ [k])"
        using wf_queue [OF w, of j] sub kq by auto
    next
      fix j assume j: "j \<in> set (activeDownloads st)"
      show "count_list (remove1 k (workers st)) j + count_list (timers st @ [k]) j \<le> 1"
      proof (cases "j = k")
        case True
        with cnt j count_remove1_in [OF assms(2)] show ?thesis by simp
      next
        case False
        with cle [OF j] show ?thesis by simp
      qed
    next
      fix j e assume j: "j \<in> set (activeDownloads st)"
        "j \<in> set (remove1 k (workers st)) \<or> j \<in> set (timers st @ [k])"
        "((objs st)(k \<mapsto> ?d2)) j = Some e"
      show "is_running e"
      proof (cases "j = k")
        case True
        with j show ?thesis by (auto simp: is_running_def)
      next
        case False
        with j wf_running [OF w, of j e] sub show ?thesis by auto
      qed
    qed
    moreover have "runningCount ?st' \<le> runningCount st"
      unfolding runningCount_rc v using run d by (intro rc_upd_le) auto
    ultimately show ?thesis using r by (simp add: inv_def)
  next
    case fail
    let ?d1 = "d\<lparr>info := (info d)\<lparr>status := ''error'', error := Some (error_text lastError code)\<rparr>\<rparr>"
    have v: "objs ?st' = (objs st)(k \<mapsto> ?d1)" "activeDownloads ?st' = remove1 k (activeDownloads st)"
      "downloadQueue ?st' = downloadQueue st" "workers ?st' = remove1 k (workers st)" "timers ?st' = timers st"
      using fail d by (simp_all add: on_close_def Let_def broadcast_def saveState_def)
    have da: "distinct (activeDownloads st)" using wf_distinct [OF w] by simp
    have suba: "\<And>j. j \<in> set (remove1 k (activeDownloads st)) \<Longrightarrow> j \<in> set (activeDownloads st) \<and> j \<noteq> k"
      using da by simp
    have "wf ?st'"
    proof (rule wfI; unfold v)
      show "distinct (remove1 k (activeDownloads st))" "distinct (downloadQueue st)"
        using wf_distinct [OF w] by simp_all
    next
      fix j assume "j \<in> set (remove1 k (activeDownloads st)) \<or> j \<in> set (downloadQueue st)
               \<or> j \<in> set (remove1 k (workers st)) \<or> j \<in> set (timers st)"
      then have "j \<in> set (activeDownloads st) \<or> j \<in> set (downloadQueue st)
               \<or> j \<in> set (workers st) \<or> j \<in> set (timers st)"
        using sub [of j] suba [of j] by blast
      then show "((objs st)(k \<mapsto> ?d1)) j \<noteq> None" using wf_known [OF w, of j] by simp
    next
      fix j assume "j \<in> set (downloadQueue st)"
      then show "j \<notin> set (remove1 k (workers st)) \<and> j \<notin> set (timers st)"
        using wf_queue [OF w, of j] sub by blast
    next
      fix j assume "j \<in> set (remove1 k (activeDownloads st))"
      then show "count_list (remove1 k (workers st)) j + count_list (timers st) j \<le> 1"
        using cle suba by blast
    next
      fix j e assume j: "j \<in> set (remove1 k (activeDownloads st))"
        "j \<in> set (remove1 k (workers st)) \<or> j \<in> set (timers st)"
        "((objs st)(k \<mapsto> ?d1)) j = Some e"
      from suba [OF j(1)] have "j \<in> set (activeDownloads st)" "j \<noteq> k" by simp_all
      moreover from j(2) sub [of j] have "j \<in> set (workers st) \<or> j \<in> set (timers st)" by blast
      moreover from j(3) \<open>j \<noteq> k\<close> have "objs st j = Some e" by simp
      ultimately show "is_running e" using wf_running [OF w, of j e] by blast
    qed
    moreover have "rc ((objs st)(k \<mapsto> ?d1)) (remove1 k (activeDownloads st))
        = rc (objs st) (remove1 k (activeDownloads st))"
      using da by (intro rc_upd_notin) simp
    then have "runningCount ?st' \<le> runningCount st"
      unfolding runningCount_rc v by (simp add: rc_remove1)
    ultimately show ?thesis using r by (simp add: inv_def)
  qed
qed

text \<open>An object is rewritten and its key leaves the table.\<close>

lemma leave_inv:
  assumes "inv cf st"
    and v: "objs st' = (objs st)(k \<mapsto> d')" "activeDownloads st' = remove1 k (activeDownloads st)"
      "downloadQueue st' = downloadQueue st" "workers st' = workers st" "timers st' = timers st"
  shows "inv cf st'"
proof -
  from assms have w: "wf st" and r: "runningCount st \<le> MAX_CONCURRENT_DOWNLOADS cf"
    by (simp_all add: inv_def)
  have "wf st'"
    unfolding wf_def v using w by (auto simp: wf_def dest: notin_set_remove1)
  moreover have "rc ((objs st)(k \<mapsto> d')) (remove1 k (activeDownloads st))
        = rc (objs st) (remove1 k (activeDownloads st))"
    using w by (intro rc_upd_notin) (simp add: wf_def)
  then have "runningCount st' \<le> runningCount st"
    unfolding runningCount_rc v by (simp add: rc_remove1)
  ultimately show ?thesis using r by (simp add: inv_def)
qed

lemma finish_inv:
  assumes "inv cf st"
  shows "inv cf (fst (on_finish cf k stat moved date (st\<lparr>finishing := remove1 k (finishing st)\<rparr>)))"
proof (cases "objs st k")
  case None
  with assms show ?thesis by (simp add: on_finish_def inv_def wf_def runningCount_rc)
next
  case (Some d)
  show ?thesis
  proof (cases "config d")
    case None
    with Some assms show ?thesis by (simp add: on_finish_def inv_def wf_def runningCount_rc)
  next
    case (Some c)
    let ?ff = "cfg_filename c @ (if isVideo_of c \<and> \<not> isTorrent_of c then ''.mp4'' else [])"
    let ?i1 = "(case stat of None \<Rightarrow> info d
                          | Some (sz, bytes) \<Rightarrow> (info d)\<lparr>fullSize := sz, sizeBytes := Some bytes\<rparr>)"
    let ?i2 = "?i1\<lparr>filename := (case moved of None \<Rightarrow> ?ff | Some base \<Rightarrow> path_join base ?ff)\<rparr>"
    let ?st0 = "st\<lparr>finishing := remove1 k (finishing st)\<rparr>"
    let ?st2 = "broadcast ''status-change'' ?i2 (?st0\<lparr>objs := (objs ?st0)(k \<mapsto> d\<lparr>info := ?i2\<rparr>),
                             historyList := historyList ?st0 @ [(?i2, date)],
                             activeDownloads := remove1 k (activeDownloads ?st0)\<rparr>)"
    have "inv cf ?st2"
      by (rule leave_inv [OF assms, where k = k and d' = "d\<lparr>info := ?i2\<rparr>"])
        (simp_all add: broadcast_def saveState_def Let_def)
    then have "inv cf (fst (processQueue cf date ?st2))" by (rule processQueue_inv)
    with Some \<open>objs st k = Some d\<close> show ?thesis by (simp add: on_finish_def Let_def)
  qed
qed

lemma proc_error_inv:
  assumes "inv cf st"
  shows "inv cf (fst (on_proc_error cf k msg now st))"
proof (cases "objs st k")
  case None
  with assms show ?thesis by (simp add: on_proc_error_def)
next
  case (Some d)
  let ?d1 = "d\<lparr>info := (info d)\<lparr>status := ''error'', error := Some (Text msg)\<rparr>\<rparr>"
  let ?st1 = "broadcast ''status-change'' (info ?d1) (st\<lparr>objs := (objs st)(k \<mapsto> ?d1)\<rparr>)"
  let ?st2 = "?st1\<lparr>activeDownloads := remove1 k (activeDownloads ?st1)\<rparr>"
  have "inv cf ?st2"
    by (rule leave_inv [OF assms, where k = k and d' = ?d1]) (simp_all add: broadcast_def saveState_def Let_def)
  then have "inv cf (fst (processQueue cf now ?st2))" by (rule processQueue_inv)
  with Some show ?thesis by (simp add: on_proc_error_def Let_def)
qed

lemma cancel_inv:
  assumes "inv cf st"
  shows "inv cf (fst (cancel idv st))"
proof (cases "\<exists>k d. idv = Some k \<and> k \<noteq> [] \<and> table_get st k = Some d")
  case False
  then have "fst (cancel idv st) = st"
    by (auto simp: cancel_def truthy_def split: option.splits)
  with assms show ?thesis by simp
next
  case True
  then obtain k d where k: "idv = Some k" "k \<noteq> []" "table_get st k = Some d" by blast
  let ?d1 = "d\<lparr>info := (info d)\<lparr>status := ''cancelled''\<rparr>\<rparr>"
  show ?thesis
    by (rule leave_inv [OF assms, where k = k and d' = ?d1])
      (simp_all add: cancel_def truthy_def k broadcast_def saveState_def Let_def split: option.splits)
qed

lemma data_inv:
  assumes "inv cf st"
  shows "inv cf (on_data k n st)"
proof (cases "\<exists>d c. objs st k = Some d \<and> config d = Some c")
  case False
  then have "on_data k n st = st" by (auto simp: on_data_def split: option.splits)
  with assms show ?thesis by simp
next
  case True
  then obtain d c where d: "objs st k = Some d" "config d = Some c" by blast
  let ?p = "if isVideo_of c \<and> \<not> isTorrent_of c then min 100 n else min 99 (n div 10)"
  let ?d1 = "d\<lparr>info := (info d)\<lparr>progress := ?p\<rparr>\<rparr>"
  let ?st' = "on_data k n st"
  have v: "objs ?st' = (objs st)(k \<mapsto> ?d1)" "activeDownloads ?st' = activeDownloads st"
      "downloadQueue ?st' = downloadQueue st" "workers ?st' = workers st" "timers ?st' = timers st"
    using d by (simp_all add: on_data_def Let_def broadcast_def saveState_def)
  from assms have w: "wf st" and r: "runningCount st \<le> MAX_CONCURRENT_DOWNLOADS cf"
    by (simp_all add: inv_def)
  have same: "is_running ?d1 = is_running d" by (simp add: is_running_def)
  have e: "\<And>j e. j \<in> set (activeDownloads st) \<Longrightarrow> j \<in> set (workers st) \<or> j \<in> set (timers st) \<Longrightarrow>
      ((objs st)(k \<mapsto> ?d1)) j = Some e \<Longrightarrow> is_running e"
  proof -
    fix j e
    assume j: "j \<in> set (activeDownloads st)" "j \<in> set (workers st) \<or> j \<in> set (timers st)"
      and o: "((objs st)(k \<mapsto> ?d1)) j = Some e"
    show "is_running e"
    proof (cases "j = k")
      case True
      with o have "e = ?d1" by simp
      moreover from w j d True have "is_running d" unfolding wf_def by blast
      ultimately show ?thesis using same by simp
    next
      case False
      with o have "objs st j = Some e" by simp
      with w j show ?thesis unfolding wf_def by blast
    qed
  qed
  have "wf ?st'"
    unfolding wf_def v using w e by (simp add: wf_def)
  moreover have "runningCount ?st' \<le> runningCount st"
    unfolding runningCount_rc v using d by (intro rc_upd_le) (auto simp: is_running_def)
  ultimately show ?thesis using r by (simp add: inv_def)
qed

lemma timer_inv:
  assumes "inv cf st" "k \<in> set (timers st)"
  shows "inv cf (fst (startDownload k now (st\<lparr>timers := remove1 k (timers st)\<rparr>)))"
proof -
  from assms have w: "wf st" and r: "runningCount st \<le> MAX_CONCURRENT_DOWNLOADS cf"
    by (simp_all add: inv_def)
  let ?st0 = "st\<lparr>timers := remove1 k (timers st)\<rparr>"
  have sub: "\<And>j. j \<in> set (remove1 k (timers st)) \<Longrightarrow> j \<in> set (timers st)"
    by (meson notin_set_remove1)
  have w0: "wf ?st0"
    unfolding wf_def using w sub
    by (auto simp: wf_def intro: order_trans [OF add_le_mono [OF order_refl remove1_count_le]])
  have kq: "k \<notin> set (downloadQueue ?st0)" using w assms(2) by (auto simp: wf_def)
  have nw: "k \<in> set (activeDownloads ?st0) \<Longrightarrow> k \<notin> set (workers ?st0) \<and> k \<notin> set (timers ?st0)"
  proof -
    assume a: "k \<in> set (activeDownloads ?st0)"
    then have "count_list (workers st) k + count_list (timers st) k \<le> 1" using w by (simp add: wf_def)
    with count_pos [OF assms(2)] have "count_list (workers st) k = 0" "count_list (timers st) k = 1"
      by auto
    then have "count_list (workers st) k = 0" "count_list (remove1 k (timers st)) k = 0"
      using count_remove1_in [OF assms(2)] by auto
    then show ?thesis
      using count_pos [of k "workers st"] count_pos [of k "remove1 k (timers st)"] by fastforce
  qed
  have "wf (fst (startDownload k now ?st0))" by (rule startDownload_wf [OF w0 nw kq])
  moreover have "runningCount (fst (startDownload k now ?st0)) \<le> runningCount ?st0"
  proof (rule startDownload_rc_le)
    assume "k \<in> set (activeDownloads ?st0)"
    then show "\<exists>d. objs ?st0 k = Some d \<and> is_running d"
      using w assms(2) by (auto simp: wf_def)
  qed
  moreover have "runningCount ?st0 = runningCount st" by (simp add: runningCount_rc)
  ultimately show ?thesis using r by (simp add: inv_def)
qed


lemma cancel_entry_view:
  "downloadQueue (fst (cancel_entry acc k)) = downloadQueue (fst acc)
   \<and> workers (fst (cancel_entry acc k)) = workers (fst acc)
   \<and> timers (fst (cancel_entry acc k)) = timers (fst acc)
   \<and> activeDownloads (fst (cancel_entry acc k)) = activeDownloads (fst acc)
   \<and> (\<forall>j. objs (fst acc) j \<noteq> None \<longrightarrow> objs (fst (cancel_entry acc k)) j \<noteq> None)"
  by (simp add: cancel_entry_def broadcast_def saveState_def Let_def split: option.splits)

lemma cancel_fold_view:
  "downloadQueue (fst (foldl cancel_entry acc ks)) = downloadQueue (fst acc)
   \<and> workers (fst (foldl cancel_entry acc ks)) = workers (fst acc)
   \<and> timers (fst (foldl cancel_entry acc ks)) = timers (fst acc)
   \<and> activeDownloads (fst (foldl cancel_entry acc ks)) = activeDownloads (fst acc)
   \<and> (\<forall>j. objs (fst acc) j \<noteq> None \<longrightarrow> objs (fst (foldl cancel_entry acc ks)) j \<noteq> None)"
proof (induction ks arbitrary: acc)
  case Nil
  show ?case by simp
next
  case (Cons k ks)
  show ?case using Cons [of "cancel_entry acc k"] cancel_entry_view [of acc k] by simp
qed

lemma cancel_all_inv:
  assumes "inv cf st"
  shows "inv cf (fst (cancel_all st))"
proof -
  from assms have w: "wf st" by (simp add: inv_def)
  let ?r = "foldl cancel_entry (st, 0) (activeDownloads st)"
  let ?st' = "fst (cancel_all st)"
  have v: "activeDownloads ?st' = []" "downloadQueue ?st' = downloadQueue st"
    "workers ?st' = workers st" "timers ?st' = timers st" "objs ?st' = objs (fst ?r)"
    using cancel_fold_view [of "(st, 0)" "activeDownloads st"]
    by (simp_all add: cancel_all_def Let_def saveState_def)
  have o: "\<And>j. objs st j \<noteq> None \<Longrightarrow> objs (fst ?r) j \<noteq> None"
    using cancel_fold_view [of "(st, 0)" "activeDownloads st"] by simp
  have "wf ?st'"
    unfolding wf_def v using w o by (auto simp: wf_def)
  moreover have "runningCount ?st' = 0" unfolding runningCount_rc v by simp
  ultimately show ?thesis by (simp add: inv_def)
qed

lemma step_inv: "inv cf st \<Longrightarrow> inv cf (step cf st ev)"
  by (cases ev)
    (simp_all add: step_def submit_inv data_inv close_inv finish_inv proc_error_inv timer_inv
      cancel_inv cancel_all_inv)

lemma run_inv: "inv cf st \<Longrightarrow> inv cf (run cf st evs)"
  unfolding run_def by (induction evs arbitrary: st) (simp_all add: step_inv)

lemma load_fold_view:
  "downloadQueue (foldl load_entry st is) = downloadQueue st
   \<and> workers (foldl load_entry st is) = workers st
   \<and> timers (foldl load_entry st is) = timers st
   \<and> spawned (foldl load_entry st is) = spawned st
   \<and> finishing (foldl load_entry st is) = finishing st
   \<and> started (foldl load_entry st is) = started st
   \<and> submitted (foldl load_entry st is) = submitted st
   \<and> events (foldl load_entry st is) = events st
   \<and> killed (foldl load_entry st is) = killed st"
  by (induction "is" arbitrary: st) (simp_all add: load_entry_def)

lemma load_entry_inv0:
  assumes "distinct (activeDownloads st)" "\<forall>k \<in> set (activeDownloads st). objs st k \<noteq> None"
    "rc (objs st) (activeDownloads st) = 0"
  shows "distinct (activeDownloads (load_entry st i))
    \<and> (\<forall>k \<in> set (activeDownloads (load_entry st i)). objs (load_entry st i) k \<noteq> None)
    \<and> rc (objs (load_entry st i)) (activeDownloads (load_entry st i)) = 0"
proof -
  let ?d = "\<lparr>info = restore i, config = None, process = None, retryCount = 0\<rparr>"
  have nr: "\<not> is_running ?d" by (simp add: is_running_def restore_def)
  have "rc ((objs st)(iid i \<mapsto> ?d)) (activeDownloads st) \<le> rc (objs st) (activeDownloads st)"
    by (rule rc_upd_le) (simp add: nr)
  with assms(3) have z: "rc ((objs st)(iid i \<mapsto> ?d)) (activeDownloads st) = 0" by simp
  show ?thesis using assms(1,2) z nr
    by (auto simp: load_entry_def table_set_def rc_append rc_Cons)
qed

lemma load_fold_inv0:
  assumes "distinct (activeDownloads st)" "\<forall>k \<in> set (activeDownloads st). objs st k \<noteq> None"
    "rc (objs st) (activeDownloads st) = 0"
  shows "distinct (activeDownloads (foldl load_entry st is))
    \<and> (\<forall>k \<in> set (activeDownloads (foldl load_entry st is)). objs (foldl load_entry st is) k \<noteq> None)
    \<and> rc (objs (foldl load_entry st is)) (activeDownloads (foldl load_entry st is)) = 0"
  using assms
proof (induction "is" arbitrary: st)
  case Nil
  then show ?case by simp
next
  case (Cons i "is")
  from load_entry_inv0 [OF Cons.prems, of i] show ?case
    using Cons.IH [of "load_entry st i"] by simp
qed

lemma boot_inv: "inv cf (boot data hist)"
proof -
  let ?st = "case data of None \<Rightarrow> empty_engine | Some infos \<Rightarrow> foldl load_entry empty_engine infos"
  have e: "distinct (activeDownloads empty_engine)"
    "\<forall>k \<in> set (activeDownloads empty_engine). objs empty_engine k \<noteq> None"
    "rc (objs empty_engine) (activeDownloads empty_engine) = 0"
    by (simp_all add: empty_engine_def)
  have a: "distinct (activeDownloads ?st) \<and> (\<forall>k \<in> set (activeDownloads ?st). objs ?st k \<noteq> None)
    \<and> rc (objs ?st) (activeDownloads ?st) = 0"
    using load_fold_inv0 [OF e] e by (cases data) simp_all
  have b: "downloadQueue ?st = [] \<and> workers ?st = [] \<and> timers ?st = []"
    using load_fold_view [of empty_engine] by (cases data) (simp_all add: empty_engine_def)
  have v: "objs (boot data hist) = objs ?st" "activeDownloads (boot data hist) = activeDownloads ?st"
    "downloadQueue (boot data hist) = downloadQueue ?st" "workers (boot data hist) = workers ?st"
    "timers (boot data hist) = timers ?st"
    by (simp_all add: boot_def loadState_def Let_def)
  show ?thesis
    unfolding inv_def wf_def runningCount_rc v using a b by auto
qed



lemma cancel_entry_frame:
  "started (fst (cancel_entry acc k)) = started (fst acc)
   \<and> submitted (fst (cancel_entry acc k)) = submitted (fst acc)
   \<and> spawned (fst (cancel_entry acc k)) = spawned (fst acc)
   \<and> finishing (fst (cancel_entry acc k)) = finishing (fst acc)
   \<and> historyList (fst (cancel_entry acc k)) = historyList (fst acc)"
  by (simp add: cancel_entry_def broadcast_def saveState_def Let_def split: option.splits)

lemma cancel_fold_frame:
  "started (fst (foldl cancel_entry acc ks)) = started (fst acc)
   \<and> submitted (fst (foldl cancel_entry acc ks)) = submitted (fst acc)
   \<and> spawned (fst (foldl cancel_entry acc ks)) = spawned (fst acc)
   \<and> finishing (fst (foldl cancel_entry acc ks)) = finishing (fst acc)
   \<and> historyList (fst (foldl cancel_entry acc ks)) = historyList (fst acc)"
proof (induction ks arbitrary: acc)
  case Nil
  show ?case by simp
next
  case (Cons k ks)
  show ?case using Cons [of "cancel_entry acc k"] cancel_entry_frame [of acc k] by simp
qed




lemma startDownload_dead:
  assumes "dead st k"
  shows "dead (fst (startDownload j now st)) k
    \<and> spawns_of (fst (startDownload j now st)) k = spawns_of st k"
proof (cases "j = k")
  case True
  with assms show ?thesis
    by (auto simp: dead_def startDownload_def table_get_def split: option.splits)
next
  case False
  with assms show ?thesis
    by (auto simp: dead_def spawns_of_def startDownload_def table_get_def spawn_def
        broadcast_def saveState_def Let_def split: option.splits)
qed

lemma processQueue_dead:
  assumes "dead st k"
  shows "dead (fst (processQueue cf now st)) k
    \<and> spawns_of (fst (processQueue cf now st)) k = spawns_of st k"
proof (rule processQueue_preserves [where P = "\<lambda>s. dead s k \<and> spawns_of s k = spawns_of st k"])
  show "dead st k \<and> spawns_of st k = spawns_of st k" using assms by simp
next
  fix s :: engine
  let ?s1 = "s\<lparr>downloadQueue := tl (downloadQueue s), started := started s @ [hd (downloadQueue s)]\<rparr>"
  assume a: "dead s k \<and> spawns_of s k = spawns_of st k"
  then have "dead ?s1 k" "spawns_of ?s1 k = spawns_of st k"
    by (simp_all add: dead_def spawns_of_def)
  with startDownload_dead [of ?s1 k "hd (downloadQueue s)" now]
  show "dead (fst (startDownload (hd (downloadQueue s)) now ?s1)) k
      \<and> spawns_of (fst (startDownload (hd (downloadQueue s)) now ?s1)) k = spawns_of st k"
    by simp
qed

text \<open>A handler that rewrites objects without touching their config, drops keys and spawns nothing.\<close>

lemma dead_frame:
  assumes "dead st k"
    and "\<And>d. objs st k = Some d \<Longrightarrow> \<exists>d'. objs st' k = Some d' \<and> config d' = config d"
    and "set (activeDownloads st') \<subseteq> set (activeDownloads st)"
    and "spawned st' = spawned st"
  shows "dead st' k \<and> spawns_of st' k = spawns_of st k"
  using assms by (fastforce simp: dead_def spawns_of_def)

lemma cancel_entry_cfg:
  "objs (fst acc) k = Some d \<Longrightarrow>
     \<exists>d'. objs (fst (cancel_entry acc j)) k = Some d' \<and> config d' = config d"
  by (auto simp: cancel_entry_def broadcast_def saveState_def Let_def split: option.splits)

lemma cancel_fold_cfg:
  "objs (fst acc) k = Some d \<Longrightarrow>
     \<exists>d'. objs (fst (foldl cancel_entry acc ks)) k = Some d' \<and> config d' = config d"
proof (induction ks arbitrary: acc d)
  case Nil
  then show ?case by simp
next
  case (Cons j ks)
  from cancel_entry_cfg [OF Cons.prems, of j] obtain d1
    where d1: "objs (fst (cancel_entry acc j)) k = Some d1" "config d1 = config d" by blast
  from Cons.IH [OF d1(1)] d1(2) show ?case by simp
qed

lemma in_remove1: "x \<in> set (remove1 y xs) \<Longrightarrow> x \<in> set xs"
  by (meson notin_set_remove1)

lemma step_dead:
  assumes "dead st k"
  shows "dead (step cf st ev) k \<and> spawns_of (step cf st ev) k = spawns_of st k"
proof (cases ev)
  case (Submit j now c)
  show ?thesis
  proof (cases "objs st j = None")
    case False
    with Submit assms show ?thesis by (auto simp: step_def)
  next
    case True
    with assms have jk: "j \<noteq> k" by (auto simp: dead_def)
    let ?i = "\<lparr>iid = j, url = cfg_url c, filename = cfg_filename c, status = ''queued'',
                           progress = 0, speed = ''0 KB/s'', eta = ''--'', currentSize = ''0 B'',
                           fullSize = ''???'', startedAt = None, completedAt = None, error = None,
                           sizeBytes = None\<rparr>"
    let ?st2 = "broadcast ''update'' ?i (st\<lparr>objs := (objs st)(j \<mapsto> \<lparr>info = ?i, config = Some c, process = None,
                                               retryCount = 0\<rparr>),
                   activeDownloads := table_set j (activeDownloads st),
                   downloadQueue := downloadQueue st @ [j],
                   submitted := submitted st @ [j]\<rparr>)"
    have "dead ?st2 k" "spawns_of ?st2 k = spawns_of st k"
      using assms jk
      by (auto simp: dead_def spawns_of_def broadcast_def saveState_def Let_def table_set_def)
    with processQueue_dead [of ?st2 k cf now] True Submit
    show ?thesis by (simp add: step_def download_post_def Let_def)
  qed
next
  case (Data j n)
  show ?thesis unfolding Data step_def
    by (cases "j \<in> set (workers st)", simp_all add: assms, rule dead_frame [OF assms])
      (auto simp: on_data_def broadcast_def saveState_def Let_def split: option.splits)
next
  case (Close j code lastError now)
  show ?thesis unfolding Close step_def
    by (cases "j \<in> set (workers st)", simp_all add: assms, rule dead_frame [OF assms])
      (auto simp: on_close_def broadcast_def saveState_def Let_def split: option.splits
        intro: in_remove1)
next
  case (Finish j stat moved date)
  show ?thesis
  proof (cases "j \<in> set (finishing st) \<and> (\<exists>d c. objs st j = Some d \<and> config d = Some c)")
    case False
    with Finish assms show ?thesis
      by (auto simp: step_def on_finish_def dead_def spawns_of_def split: option.splits)
  next
    case True
    then obtain d c where d: "objs st j = Some d" "config d = Some c" by blast
    let ?ff = "cfg_filename c @ (if isVideo_of c \<and> \<not> isTorrent_of c then ''.mp4'' else [])"
    let ?i1 = "(case stat of None \<Rightarrow> info d
                          | Some (sz, bytes) \<Rightarrow> (info d)\<lparr>fullSize := sz, sizeBytes := Some bytes\<rparr>)"
    let ?i2 = "?i1\<lparr>filename := (case moved of None \<Rightarrow> ?ff | Some base \<Rightarrow> path_join base ?ff)\<rparr>"
    let ?st0 = "st\<lparr>finishing := remove1 j (finishing st)\<rparr>"
    let ?st2 = "broadcast ''status-change'' ?i2 (?st0\<lparr>objs := (objs ?st0)(j \<mapsto> d\<lparr>info := ?i2\<rparr>),
                             historyList := historyList ?st0 @ [(?i2, date)],
                             activeDownloads := remove1 j (activeDownloads ?st0)\<rparr>)"
    have "dead ?st2 k \<and> spawns_of ?st2 k = spawns_of st k"
      by (rule dead_frame [OF assms])
        (auto simp: d broadcast_def saveState_def Let_def intro: in_remove1)
    with processQueue_dead [of ?st2 k cf date] True Finish d
    show ?thesis by (simp add: step_def on_finish_def Let_def)
  qed
next
  case (ProcError j msg now)
  show ?thesis
  proof (cases "j \<in> set (workers st) \<and> (\<exists>d. objs st j = Some d)")
    case False
    with ProcError assms show ?thesis
      by (auto simp: step_def on_proc_error_def split: option.splits)
  next
    case True
    then obtain d where d: "objs st j = Some d" by blast
    let ?d1 = "d\<lparr>info := (info d)\<lparr>status := ''error'', error := Some (Text msg)\<rparr>\<rparr>"
    let ?st1 = "broadcast ''status-change'' (info ?d1) (st\<lparr>objs := (objs st)(j \<mapsto> ?d1)\<rparr>)"
    let ?st2 = "?st1\<lparr>activeDownloads := remove1 j (activeDownloads ?st1)\<rparr>"
    have "dead ?st2 k \<and> spawns_of ?st2 k = spawns_of st k"
      by (rule dead_frame [OF assms])
        (auto simp: d broadcast_def saveState_def Let_def intro: in_remove1)
    with processQueue_dead [of ?st2 k cf now] True ProcError d
    show ?thesis by (simp add: step_def on_proc_error_def Let_def)
  qed
next
  case (RetryTimer j now)
  show ?thesis
  proof (cases "j \<in> set (timers st)")
    case False
    with RetryTimer assms show ?thesis by (simp add: step_def)
  next
    case True
    let ?st0 = "st\<lparr>timers := remove1 j (timers st)\<rparr>"
    from assms have "dead ?st0 k" "spawns_of ?st0 k = spawns_of st k"
      by (simp_all add: dead_def spawns_of_def)
    with startDownload_dead [of ?st0 k j now] True RetryTimer
    show ?thesis by (simp add: step_def)
  qed
next
  case (Cancel idv)
  show ?thesis unfolding Cancel step_def
    by (rule dead_frame [OF assms])
      (auto simp: cancel_def table_get_def broadcast_def saveState_def Let_def
        split: option.splits if_splits intro: in_remove1)
next
  case CancelAll
  have eq: "step cf st CancelAll = fst (cancel_all st)" by (simp add: step_def)
  show ?thesis unfolding CancelAll eq
  proof (rule dead_frame [OF assms])
    fix d assume "objs st k = Some d"
    then show "\<exists>d'. objs (fst (cancel_all st)) k = Some d' \<and> config d' = config d"
      using cancel_fold_cfg [of "(st, 0)" k d "activeDownloads st"]
      by (simp add: cancel_all_def saveState_def Let_def)
  next
    show "set (activeDownloads (fst (cancel_all st))) \<subseteq> set (activeDownloads st)"
      by (simp add: cancel_all_def saveState_def Let_def)
  next
    show "spawned (fst (cancel_all st)) = spawned st"
      using cancel_fold_frame [of "(st, 0)" "activeDownloads st"]
      by (simp add: cancel_all_def saveState_def Let_def)
  qed
qed

lemma run_dead:
  "dead st k \<Longrightarrow> dead (run cf st evs) k \<and> spawns_of (run cf st evs) k = spawns_of st k"
proof (induction evs arbitrary: st)
  case Nil
  then show ?case by (simp add: run_def)
next
  case (Cons ev evs)
  from step_dead [OF Cons.prems, of cf ev]
  have a: "dead (step cf st ev) k" "spawns_of (step cf st ev) k = spawns_of st k" by simp_all
  from Cons.IH [OF a(1)] a(2) show ?case by (simp add: run_def)
qed



lemma load_fold_snoc: "foldl load_entry st (is @ [i]) = load_entry (foldl load_entry st is) i"
  by simp

lemma load_entry_objs:
  "objs (load_entry s x) k = (if k = iid x then Some (loaded x) else objs s k)"
  by (simp add: load_entry_def loaded_def)

lemma load_entry_keys:
  "set (activeDownloads (load_entry s x)) = insert (iid x) (set (activeDownloads s))"
  by (auto simp: load_entry_def table_set_def)

lemma load_fold_objs:
  "i \<in> set is \<Longrightarrow> \<exists>j \<in> set is. iid j = iid i \<and> objs (foldl load_entry st is) (iid i) = Some (loaded j)"
proof (induction "is" arbitrary: st rule: rev_induct)
  case Nil
  then show ?case by simp
next
  case (snoc x xs)
  show ?case
  proof (cases "iid x = iid i")
    case True
    then show ?thesis by (auto simp: load_entry_objs intro!: bexI [of _ x])
  next
    case False
    with snoc.prems have "i \<in> set xs" by auto
    from snoc.IH [OF this, of st] obtain j where "j \<in> set xs" "iid j = iid i"
      "objs (foldl load_entry st xs) (iid i) = Some (loaded j)" by blast
    with False show ?thesis by (auto simp: load_entry_objs intro!: bexI [of _ j])
  qed
qed

lemma load_fold_keys:
  "set (activeDownloads (foldl load_entry st is)) = set (activeDownloads st) \<union> iid ` set is"
  by (induction "is" arbitrary: st rule: rev_induct) (auto simp: load_entry_keys)

lemma startDownload_history: "historyList (fst (startDownload k now st)) = historyList st"
  by (simp add: startDownload_def spawn_def broadcast_def saveState_def Let_def split: option.splits)

lemma processQueue_history: "historyList (fst (processQueue cf now st)) = historyList st"
  by (rule processQueue_preserves [where P = "\<lambda>s. historyList s = historyList st"])
    (simp_all add: startDownload_history)

lemma run_Nil: "run cf st [] = st"
  by (simp add: run_def)

lemma run_Cons: "run cf st (ev # evs) = run cf (step cf st ev) evs"
  by (simp add: run_def)

lemma step_RetryTimer:
  "k \<in> set (timers s) \<Longrightarrow>
     step cf s (RetryTimer k t) = fst (startDownload k t (s\<lparr>timers := remove1 k (timers s)\<rparr>))"
  by (simp add: step_def)

lemma step_Close:
  "k \<in> set (workers s) \<Longrightarrow>
     step cf s (Close k code err t) = on_close cf k code err t (s\<lparr>workers := remove1 k (workers s)\<rparr>)"
  by (simp add: step_def)

lemma startDownload_spawns:
  assumes "table_get s k = Some d" "config d = Some c" "has_worker_branch c"
  shows "snd (startDownload k t s) = Spawned
     \<and> activeDownloads (fst (startDownload k t s)) = activeDownloads s
     \<and> downloadQueue (fst (startDownload k t s)) = downloadQueue s
     \<and> timers (fst (startDownload k t s)) = timers s
     \<and> workers (fst (startDownload k t s)) = workers s @ [k]
     \<and> (\<exists>cmd args. spawned (fst (startDownload k t s)) = spawned s @ [(k, cmd, args)])
     \<and> (\<exists>d'. objs (fst (startDownload k t s)) k = Some d' \<and> config d' = Some c
            \<and> retryCount d' = retryCount d \<and> status (info d') = ''downloading'')"
proof -
  from assms(3) consider (yt) "isVideo_of c \<and> \<not> isTorrent_of c"
    | (ff) "\<not> isVideo_of c" "isStreamUrl (cfg_url c) \<and> \<not> isTorrent_of c"
    by (auto simp: has_worker_branch_def)
  then show ?thesis
  proof cases
    case yt
    with assms(1,2) show ?thesis
      by (simp add: startDownload_def Let_def spawn_def broadcast_def saveState_def)
  next
    case ff
    with assms(1,2) show ?thesis
      by (simp add: startDownload_def Let_def spawn_def broadcast_def saveState_def)
  qed
qed

lemma retry_round:
  assumes "k \<in> set (activeDownloads st)" "objs st k = Some d" "config d = Some c"
    "has_worker_branch c" "k \<in> set (workers st)" "retryCount d < RETRY_ATTEMPTS cf"
    "code \<noteq> Some 0" "transient err code"
  shows "status_of (step cf st (Close k code err t1)) k = Some ''retrying''
     \<and> retries_of (step cf st (Close k code err t1)) k = Some (retryCount d + 1)
     \<and> downloadQueue (step cf st (Close k code err t1)) = downloadQueue st
     \<and> spawns_of (step cf st (Close k code err t1)) k = spawns_of st k
     \<and> k \<in> set (timers (step cf st (Close k code err t1)))
     \<and> k \<in> set (activeDownloads (step cf (step cf st (Close k code err t1)) (RetryTimer k t2)))
     \<and> (\<exists>d2. objs (step cf (step cf st (Close k code err t1)) (RetryTimer k t2)) k = Some d2
            \<and> config d2 = Some c \<and> retryCount d2 = retryCount d + 1
            \<and> status (info d2) = ''downloading'')
     \<and> k \<in> set (workers (step cf (step cf st (Close k code err t1)) (RetryTimer k t2)))
     \<and> length (spawns_of (step cf (step cf st (Close k code err t1)) (RetryTimer k t2)) k)
          = length (spawns_of st k) + 1
     \<and> downloadQueue (step cf (step cf st (Close k code err t1)) (RetryTimer k t2)) = downloadQueue st"
proof -
  let ?d2 = "d\<lparr>retryCount := retryCount d + 1, info := (info d)\<lparr>status := ''retrying''\<rparr>\<rparr>"
  let ?s1 = "step cf st (Close k code err t1)"
  have s1: "?s1 = (broadcast ''update'' (info ?d2)
       (st\<lparr>workers := remove1 k (workers st), objs := (objs st)(k \<mapsto> ?d2)\<rparr>))
       \<lparr>timers := timers st @ [k]\<rparr>"
    using assms by (simp add: step_def on_close_def shouldRetry_def Let_def broadcast_def saveState_def)
  have v1: "objs ?s1 k = Some ?d2" "downloadQueue ?s1 = downloadQueue st" "spawned ?s1 = spawned st"
    "timers ?s1 = timers st @ [k]" "activeDownloads ?s1 = activeDownloads st"
    by (simp_all add: s1 broadcast_def saveState_def Let_def)
  define s1' where "s1' = ?s1\<lparr>timers := remove1 k (timers ?s1)\<rparr>"
  have v1': "downloadQueue s1' = downloadQueue st" "spawned s1' = spawned st"
    "activeDownloads s1' = activeDownloads st"
    by (simp_all add: s1'_def v1)
  have tg: "table_get s1' k = Some ?d2"
    using assms(1) v1(1,5) by (simp add: table_get_def s1'_def)
  have c2: "config ?d2 = Some c" using assms(3) by simp
  let ?s2 = "step cf ?s1 (RetryTimer k t2)"
  have s2: "?s2 = fst (startDownload k t2 s1')"
    unfolding s1'_def by (rule step_RetryTimer) (simp add: v1)
  from startDownload_spawns [OF tg c2 assms(4), of t2] obtain cmd args d3 where
    v2: "activeDownloads ?s2 = activeDownloads s1'" "downloadQueue ?s2 = downloadQueue s1'"
      "workers ?s2 = workers s1' @ [k]" "spawned ?s2 = spawned s1' @ [(k, cmd, args)]"
      "objs ?s2 k = Some d3" "config d3 = Some c" "retryCount d3 = retryCount ?d2"
      "status (info d3) = ''downloading''"
    unfolding s2 by blast
  have "length (spawns_of ?s2 k) = length (spawns_of st k) + 1"
    by (simp add: spawns_of_def v2 v1')
  with v1 v2 v1' assms(1) show ?thesis
    by (simp add: status_of_def retries_of_def spawns_of_def)
qed

lemma final_failure:
  assumes "objs st k = Some d" "k \<in> set (workers st)" "\<not> retryCount d < RETRY_ATTEMPTS cf"
    "code \<noteq> Some 0"
  shows "status_of (step cf st (Close k code err t1)) k = Some ''error''
     \<and> spawns_of (step cf st (Close k code err t1)) k = spawns_of st k
     \<and> downloadQueue (step cf st (Close k code err t1)) = downloadQueue st
     \<and> timers (step cf st (Close k code err t1)) = timers st"
  using assms
  by (simp add: step_def on_close_def shouldRetry_def Let_def broadcast_def saveState_def
      status_of_def spawns_of_def)


lemma cancel_entry_effect:
  assumes "objs (fst acc) k = Some d"
  shows "snd (cancel_entry acc k) = snd acc + 1
     \<and> objs (fst (cancel_entry acc k)) = (objs (fst acc))(k \<mapsto> d\<lparr>info := (info d)\<lparr>status := ''cancelled''\<rparr>\<rparr>)
     \<and> killed (fst (cancel_entry acc k))
          = killed (fst acc) @ (case process d of None \<Rightarrow> [] | Some p \<Rightarrow> [p])"
  using assms
  by (simp add: cancel_entry_def broadcast_def saveState_def Let_def split: option.splits)

lemma cancel_fold_effect:
  assumes "\<forall>k \<in> set ks. objs (fst acc) k \<noteq> None"
  shows "snd (foldl cancel_entry acc ks) = snd acc + length ks
     \<and> (\<forall>k \<in> set ks. cancelled_at (fst acc) (fst (foldl cancel_entry acc ks)) k)
     \<and> (\<forall>k. cancelled_at st0 (fst acc) k \<longrightarrow> cancelled_at st0 (fst (foldl cancel_entry acc ks)) k)"
  using assms
proof (induction ks arbitrary: acc st0)
  case Nil
  then show ?case by simp
next
  case (Cons j ks)
  from Cons.prems obtain d where d: "objs (fst acc) j = Some d" by auto
  let ?a = "cancel_entry acc j"
  note e = cancel_entry_effect [OF d]
  have ex: "\<forall>k \<in> set ks. objs (fst ?a) k \<noteq> None" using Cons.prems e by simp
  have ih1: "snd (foldl cancel_entry ?a ks) = snd ?a + length ks"
    and ih2: "\<And>k. k \<in> set ks \<Longrightarrow> cancelled_at (fst ?a) (fst (foldl cancel_entry ?a ks)) k"
    and ih3: "\<And>s0 k. cancelled_at s0 (fst ?a) k \<Longrightarrow> cancelled_at s0 (fst (foldl cancel_entry ?a ks)) k"
    using Cons.IH [OF ex] by blast+
  have keep: "\<And>s0 k. cancelled_at s0 (fst acc) k \<Longrightarrow> cancelled_at s0 (fst ?a) k"
    using e d by (auto simp: cancelled_at_def)
  have here: "cancelled_at (fst acc) (fst ?a) j"
    using e d by (auto simp: cancelled_at_def split: option.splits)
  have later: "\<And>k. k \<in> set ks \<Longrightarrow> cancelled_at (fst ?a) (fst (foldl cancel_entry ?a ks)) k
      \<Longrightarrow> cancelled_at (fst acc) (fst (foldl cancel_entry ?a ks)) k"
  proof -
    fix k assume k: "k \<in> set ks" and c: "cancelled_at (fst ?a) (fst (foldl cancel_entry ?a ks)) k"
    show "cancelled_at (fst acc) (fst (foldl cancel_entry ?a ks)) k"
    proof (cases "k = j")
      case True
      with c e d show ?thesis by (auto simp: cancelled_at_def)
    next
      case False
      with c e show ?thesis by (auto simp: cancelled_at_def)
    qed
  qed
  have 1: "snd (foldl cancel_entry acc (j # ks)) = snd acc + length (j # ks)"
    using ih1 e by simp
  have 2: "\<forall>k \<in> set (j # ks). cancelled_at (fst acc) (fst (foldl cancel_entry acc (j # ks))) k"
  proof
    fix k assume "k \<in> set (j # ks)"
    then consider "k = j" | "k \<in> set ks" by auto
    then show "cancelled_at (fst acc) (fst (foldl cancel_entry acc (j # ks))) k"
    proof cases
      case 1
      with ih3 [OF here] show ?thesis by simp
    next
      case 2
      with later [OF 2 ih2 [OF 2]] show ?thesis by simp
    qed
  qed
  have 3: "\<forall>k. cancelled_at st0 (fst acc) k \<longrightarrow> cancelled_at st0 (fst (foldl cancel_entry acc (j # ks))) k"
    using ih3 [OF keep] by simp
  from 1 2 3 show ?case by blast
qed









lemma branch_frame:
  assumes "branch_ok st"
    and "\<And>k d. objs st k = Some d \<Longrightarrow> \<exists>d'. objs st' k = Some d' \<and> config d' = config d"
    and "set (workers st') \<union> set (timers st') \<subseteq> set (workers st) \<union> set (timers st)"
  shows "branch_ok st'"
  unfolding branch_ok_def
proof (intro allI impI)
  fix k assume "k \<in> set (workers st') \<or> k \<in> set (timers st')"
  with assms(3) have "k \<in> set (workers st) \<or> k \<in> set (timers st)" by blast
  with assms(1) obtain d c where "objs st k = Some d" "config d = Some c" "has_worker_branch c"
    unfolding branch_ok_def by blast
  with assms(2) [of k d] show "\<exists>d c. objs st' k = Some d \<and> config d = Some c \<and> has_worker_branch c"
    by auto
qed

lemma startDownload_cfg:
  "objs st j = Some d \<Longrightarrow>
     \<exists>d'. objs (fst (startDownload k now st)) j = Some d' \<and> config d' = config d"
  by (auto simp: startDownload_def table_get_def spawn_def broadcast_def saveState_def Let_def
      split: option.splits)

lemma startDownload_branch:
  "timers (fst (startDownload k now st)) = timers st
   \<and> (workers (fst (startDownload k now st)) = workers st
      \<or> (workers (fst (startDownload k now st)) = workers st @ [k]
          \<and> (\<exists>d c. objs (fst (startDownload k now st)) k = Some d \<and> config d = Some c
                \<and> has_worker_branch c)))"
  by (auto simp: startDownload_def table_get_def spawn_def broadcast_def saveState_def Let_def
      has_worker_branch_def split: option.splits)

lemma startDownload_branch_ok:
  assumes "branch_ok st"
  shows "branch_ok (fst (startDownload k now st))"
  unfolding branch_ok_def
proof (intro allI impI)
  let ?s = "fst (startDownload k now st)"
  fix j assume j: "j \<in> set (workers ?s) \<or> j \<in> set (timers ?s)"
  from startDownload_branch [of k now st]
  have t: "timers ?s = timers st"
    and w: "workers ?s = workers st
      \<or> (workers ?s = workers st @ [k]
          \<and> (\<exists>d c. objs ?s k = Some d \<and> config d = Some c \<and> has_worker_branch c))"
    by simp_all
  show "\<exists>d c. objs ?s j = Some d \<and> config d = Some c \<and> has_worker_branch c"
  proof (cases "j \<in> set (workers st) \<or> j \<in> set (timers st)")
    case True
    with assms obtain d c where "objs st j = Some d" "config d = Some c" "has_worker_branch c"
      unfolding branch_ok_def by blast
    with startDownload_cfg [of st j d k now] show ?thesis by auto
  next
    case False
    with j t w have "j = k" and "\<exists>d c. objs ?s k = Some d \<and> config d = Some c \<and> has_worker_branch c"
      by auto
    then show ?thesis by simp
  qed
qed

lemma processQueue_branch_ok: "branch_ok st \<Longrightarrow> branch_ok (fst (processQueue cf now st))"
proof (rule processQueue_preserves [where P = branch_ok])
  fix s :: engine
  assume "branch_ok s"
  then have "branch_ok (s\<lparr>downloadQueue := tl (downloadQueue s), started := started s @ [hd (downloadQueue s)]\<rparr>)"
    by (simp add: branch_ok_def)
  then show "branch_ok (fst (startDownload (hd (downloadQueue s)) now
      (s\<lparr>downloadQueue := tl (downloadQueue s), started := started s @ [hd (downloadQueue s)]\<rparr>)))"
    by (rule startDownload_branch_ok)
qed

lemma step_branch_ok:
  assumes "branch_ok st"
  shows "branch_ok (step cf st ev)"
proof (cases ev)
  case (Submit j now c)
  show ?thesis
  proof (cases "objs st j = None")
    case False
    with Submit assms show ?thesis by (auto simp: step_def)
  next
    case True
    let ?i = "\<lparr>iid = j, url = cfg_url c, filename = cfg_filename c, status = ''queued'',
                           progress = 0, speed = ''0 KB/s'', eta = ''--'', currentSize = ''0 B'',
                           fullSize = ''???'', startedAt = None, completedAt = None, error = None,
                           sizeBytes = None\<rparr>"
    let ?st2 = "broadcast ''update'' ?i (st\<lparr>objs := (objs st)(j \<mapsto> \<lparr>info = ?i, config = Some c, process = None,
                                               retryCount = 0\<rparr>),
                   activeDownloads := table_set j (activeDownloads st),
                   downloadQueue := downloadQueue st @ [j],
                   submitted := submitted st @ [j]\<rparr>)"
    have "branch_ok ?st2"
      by (rule branch_frame [OF assms]) (use True in \<open>auto simp: broadcast_def saveState_def Let_def\<close>)
    from processQueue_branch_ok [OF this, of cf now] True Submit
    show ?thesis by (simp add: step_def download_post_def Let_def)
  qed
next
  case (Data j n)
  show ?thesis unfolding Data step_def
    by (cases "j \<in> set (workers st)", simp_all add: assms, rule branch_frame [OF assms])
      (auto simp: on_data_def broadcast_def saveState_def Let_def split: option.splits)
next
  case (Close j code lastError now)
  show ?thesis unfolding Close step_def
    by (cases "j \<in> set (workers st)", simp_all add: assms, rule branch_frame [OF assms])
      (auto simp: on_close_def broadcast_def saveState_def Let_def split: option.splits
        intro: in_remove1)
next
  case (Finish j stat moved date)
  show ?thesis
  proof (cases "j \<in> set (finishing st) \<and> (\<exists>d c. objs st j = Some d \<and> config d = Some c)")
    case False
    with Finish assms show ?thesis
      by (auto simp: step_def on_finish_def branch_ok_def split: option.splits)
  next
    case True
    then obtain d c where d: "objs st j = Some d" "config d = Some c" by blast
    let ?ff = "cfg_filename c @ (if isVideo_of c \<and> \<not> isTorrent_of c then ''.mp4'' else [])"
    let ?i1 = "(case stat of None \<Rightarrow> info d
                          | Some (sz, bytes) \<Rightarrow> (info d)\<lparr>fullSize := sz, sizeBytes := Some bytes\<rparr>)"
    let ?i2 = "?i1\<lparr>filename := (case moved of None \<Rightarrow> ?ff | Some base \<Rightarrow> path_join base ?ff)\<rparr>"
    let ?st0 = "st\<lparr>finishing := remove1 j (finishing st)\<rparr>"
    let ?st2 = "broadcast ''status-change'' ?i2 (?st0\<lparr>objs := (objs ?st0)(j \<mapsto> d\<lparr>info := ?i2\<rparr>),
                             historyList := historyList ?st0 @ [(?i2, date)],
                             activeDownloads := remove1 j (activeDownloads ?st0)\<rparr>)"
    have "branch_ok ?st2"
      by (rule branch_frame [OF assms]) (auto simp: d broadcast_def saveState_def Let_def)
    from processQueue_branch_ok [OF this, of cf date] True Finish d
    show ?thesis by (simp add: step_def on_finish_def Let_def)
  qed
next
  case (ProcError j msg now)
  show ?thesis
  proof (cases "j \<in> set (workers st) \<and> (\<exists>d. objs st j = Some d)")
    case False
    with ProcError assms show ?thesis
      by (auto simp: step_def on_proc_error_def split: option.splits)
  next
    case True
    then obtain d where d: "objs st j = Some d" by blast
    let ?d1 = "d\<lparr>info := (info d)\<lparr>status := ''error'', error := Some (Text msg)\<rparr>\<rparr>"
    let ?st1 = "broadcast ''status-change'' (info ?d1) (st\<lparr>objs := (objs st)(j \<mapsto> ?d1)\<rparr>)"
    let ?st2 = "?st1\<lparr>activeDownloads := remove1 j (activeDownloads ?st1)\<rparr>"
    have "branch_ok ?st2"
      by (rule branch_frame [OF assms]) (auto simp: d broadcast_def saveState_def Let_def)
    from processQueue_branch_ok [OF this, of cf now] True ProcError d
    show ?thesis by (simp add: step_def on_proc_error_def Let_def)
  qed
next
  case (RetryTimer j now)
  show ?thesis
  proof (cases "j \<in> set (timers st)")
    case False
    with RetryTimer assms show ?thesis by (simp add: step_def)
  next
    case True
    have "branch_ok (st\<lparr>timers := remove1 j (timers st)\<rparr>)"
      by (rule branch_frame [OF assms]) (auto intro: in_remove1)
    from startDownload_branch_ok [OF this, of j now] True RetryTimer
    show ?thesis by (simp add: step_def)
  qed
next
  case (Cancel idv)
  show ?thesis unfolding Cancel step_def
    by (rule branch_frame [OF assms])
      (auto simp: cancel_def table_get_def broadcast_def saveState_def Let_def
        split: option.splits if_splits)
next
  case CancelAll
  have eq: "step cf st CancelAll = fst (cancel_all st)" by (simp add: step_def)
  show ?thesis unfolding CancelAll eq
  proof (rule branch_frame [OF assms])
    fix k d assume "objs st k = Some d"
    then show "\<exists>d'. objs (fst (cancel_all st)) k = Some d' \<and> config d' = config d"
      using cancel_fold_cfg [of "(st, 0)" k d "activeDownloads st"]
      by (simp add: cancel_all_def saveState_def Let_def)
  next
    show "set (workers (fst (cancel_all st))) \<union> set (timers (fst (cancel_all st)))
        \<subseteq> set (workers st) \<union> set (timers st)"
      using cancel_fold_view [of "(st, 0)" "activeDownloads st"]
      by (simp add: cancel_all_def saveState_def Let_def)
  qed
qed

lemma run_branch_ok: "branch_ok st \<Longrightarrow> branch_ok (run cf st evs)"
  unfolding run_def by (induction evs arbitrary: st) (simp_all add: step_branch_ok)

lemma boot_branch_ok: "branch_ok (boot data hist)"
  using load_fold_view [of empty_engine]
  by (cases data) (simp_all add: boot_def loadState_def branch_ok_def empty_engine_def Let_def)

subsection \<open>The count of the attempts\<close>

lemma mem_count: "k \<in> set xs \<longleftrightarrow> 0 < count_list xs k"
  by (induction xs) auto

lemma spawns_of_snoc:
  "spawned st' = spawned st @ [(k, cmd, args)] \<Longrightarrow>
     spawns_of st' j = (if j = k then spawns_of st k @ [(k, cmd, args)] else spawns_of st j)"
  by (simp add: spawns_of_def)

lemma attempts_frame:
  assumes "attempts_ok st"
    and "spawned st' = spawned st"
    and "\<And>k. map_option retryCount (objs st' k) = map_option retryCount (objs st k)"
    and "\<And>k. count_list (workers st') k \<le> count_list (workers st) k"
    and "\<And>k. count_list (timers st') k \<le> count_list (timers st) k"
    and "set (downloadQueue st') \<subseteq> set (downloadQueue st)"
  shows "attempts_ok st'"
proof -
  have sp: "\<And>k. spawns_of st' k = spawns_of st k" by (simp add: spawns_of_def assms(2))
  have w: "\<And>k. k \<in> set (workers st') \<Longrightarrow> k \<in> set (workers st)"
    using assms(4) by (metis mem_count less_le_trans)
  have t: "\<And>k. k \<in> set (timers st') \<Longrightarrow> k \<in> set (timers st)"
    using assms(5) by (metis mem_count less_le_trans)
  have a: "\<And>k. objs st' k = None \<Longrightarrow> spawns_of st' k = []"
  proof -
    fix k assume "objs st' k = None"
    with assms(3) [of k] have "objs st k = None" by simp
    with assms(1) show "spawns_of st' k = []" by (simp add: attempts_ok_def sp)
  qed
  have b: "\<And>k. count_list (workers st') k + count_list (timers st') k \<le> 1"
  proof -
    fix k
    from assms(1) have "count_list (workers st) k + count_list (timers st) k \<le> 1"
      by (simp add: attempts_ok_def)
    with assms(4) [of k] assms(5) [of k] show "count_list (workers st') k + count_list (timers st') k \<le> 1"
      by linarith
  qed
  have c: "\<And>k d'. objs st' k = Some d' \<Longrightarrow>
             (k \<in> set (workers st') \<longrightarrow> length (spawns_of st' k) = retryCount d' + 1)
           \<and> (k \<in> set (timers st') \<longrightarrow> length (spawns_of st' k) = retryCount d')
           \<and> (k \<in> set (downloadQueue st') \<longrightarrow> spawns_of st' k = [] \<and> retryCount d' = 0)"
  proof -
    fix k d' assume d': "objs st' k = Some d'"
    with assms(3) [of k] obtain d where d: "objs st k = Some d" "retryCount d = retryCount d'"
      by (cases "objs st k") auto
    from assms(1) d(1) have
      "(k \<in> set (workers st) \<longrightarrow> length (spawns_of st k) = retryCount d + 1)
           \<and> (k \<in> set (timers st) \<longrightarrow> length (spawns_of st k) = retryCount d)
           \<and> (k \<in> set (downloadQueue st) \<longrightarrow> spawns_of st k = [] \<and> retryCount d = 0)"
      unfolding attempts_ok_def by blast
    with w [of k] t [of k] assms(6) d(2) show
      "(k \<in> set (workers st') \<longrightarrow> length (spawns_of st' k) = retryCount d' + 1)
           \<and> (k \<in> set (timers st') \<longrightarrow> length (spawns_of st' k) = retryCount d')
           \<and> (k \<in> set (downloadQueue st') \<longrightarrow> spawns_of st' k = [] \<and> retryCount d' = 0)"
      unfolding sp by auto
  qed
  show ?thesis unfolding attempts_ok_def using a b c by blast
qed

lemma startDownload_shape:
  "downloadQueue (fst (startDownload k now st)) = downloadQueue st
   \<and> timers (fst (startDownload k now st)) = timers st
   \<and> (\<forall>j. map_option retryCount (objs (fst (startDownload k now st)) j) = map_option retryCount (objs st j))
   \<and> ((spawned (fst (startDownload k now st)) = spawned st
        \<and> workers (fst (startDownload k now st)) = workers st)
      \<or> (\<exists>cmd args. spawned (fst (startDownload k now st)) = spawned st @ [(k, cmd, args)]
            \<and> workers (fst (startDownload k now st)) = workers st @ [k] \<and> objs st k \<noteq> None))"
  by (auto simp: startDownload_def table_get_def spawn_def broadcast_def saveState_def Let_def
      split: option.splits)

lemma startDownload_attempts:
  assumes "attempts_ok s" "k \<notin> set (downloadQueue s)" "k \<notin> set (workers s)" "k \<notin> set (timers s)"
    and "\<And>d. objs s k = Some d \<Longrightarrow> length (spawns_of s k) = retryCount d"
  shows "attempts_ok (fst (startDownload k now s))"
proof -
  let ?s = "fst (startDownload k now s)"
  from startDownload_shape [of k now s]
  have q: "downloadQueue ?s = downloadQueue s" and t: "timers ?s = timers s"
    and r: "\<And>j. map_option retryCount (objs ?s j) = map_option retryCount (objs s j)"
    and c: "(spawned ?s = spawned s \<and> workers ?s = workers s)
      \<or> (\<exists>cmd args. spawned ?s = spawned s @ [(k, cmd, args)]
            \<and> workers ?s = workers s @ [k] \<and> objs s k \<noteq> None)"
    by simp_all
  from c show ?thesis
  proof
    assume "spawned ?s = spawned s \<and> workers ?s = workers s"
    then show ?thesis
      by (intro attempts_frame [OF assms(1)]) (simp_all add: q t r)
  next
    assume "\<exists>cmd args. spawned ?s = spawned s @ [(k, cmd, args)]
            \<and> workers ?s = workers s @ [k] \<and> objs s k \<noteq> None"
    then obtain cmd args where sp: "spawned ?s = spawned s @ [(k, cmd, args)]"
      and w: "workers ?s = workers s @ [k]" and o: "objs s k \<noteq> None" by blast
    note so = spawns_of_snoc [OF sp]
    have a: "\<And>j. objs ?s j = None \<Longrightarrow> spawns_of ?s j = []"
    proof -
      fix j assume "objs ?s j = None"
      with r [of j] have n: "objs s j = None" by simp
      with o have "j \<noteq> k" by auto
      with n assms(1) show "spawns_of ?s j = []" by (simp add: so attempts_ok_def)
    qed
    have b: "\<And>j. count_list (workers ?s) j + count_list (timers ?s) j \<le> 1"
    proof -
      fix j
      from assms(1) have "count_list (workers s) j + count_list (timers s) j \<le> 1"
        by (simp add: attempts_ok_def)
      with assms(3,4) show "count_list (workers ?s) j + count_list (timers ?s) j \<le> 1"
        by (cases "j = k") (simp_all add: w t count_list_0)
    qed
    have c: "\<And>j d'. objs ?s j = Some d' \<Longrightarrow>
             (j \<in> set (workers ?s) \<longrightarrow> length (spawns_of ?s j) = retryCount d' + 1)
           \<and> (j \<in> set (timers ?s) \<longrightarrow> length (spawns_of ?s j) = retryCount d')
           \<and> (j \<in> set (downloadQueue ?s) \<longrightarrow> spawns_of ?s j = [] \<and> retryCount d' = 0)"
    proof -
      fix j d' assume d': "objs ?s j = Some d'"
      with r [of j] obtain d where d: "objs s j = Some d" "retryCount d = retryCount d'"
        by (cases "objs s j") auto
      from assms(1) d(1) have h:
        "(j \<in> set (workers s) \<longrightarrow> length (spawns_of s j) = retryCount d + 1)
           \<and> (j \<in> set (timers s) \<longrightarrow> length (spawns_of s j) = retryCount d)
           \<and> (j \<in> set (downloadQueue s) \<longrightarrow> spawns_of s j = [] \<and> retryCount d = 0)"
        unfolding attempts_ok_def by blast
      show "(j \<in> set (workers ?s) \<longrightarrow> length (spawns_of ?s j) = retryCount d' + 1)
           \<and> (j \<in> set (timers ?s) \<longrightarrow> length (spawns_of ?s j) = retryCount d')
           \<and> (j \<in> set (downloadQueue ?s) \<longrightarrow> spawns_of ?s j = [] \<and> retryCount d' = 0)"
      proof (cases "j = k")
        case True
        with assms(5) [of d] d have "length (spawns_of s k) = retryCount d'" by simp
        with True assms(2,4) show ?thesis by (simp add: so w t q)
      next
        case False
        with h d(2) show ?thesis by (simp add: so w t q)
      qed
    qed
    show ?thesis unfolding attempts_ok_def using a b c by blast
  qed
qed

lemma promote_attempts:
  assumes "wf s" "attempts_ok s" "downloadQueue s \<noteq> []"
  shows "attempts_ok (fst (startDownload (hd (downloadQueue s)) now
            (s\<lparr>downloadQueue := tl (downloadQueue s), started := started s @ [hd (downloadQueue s)]\<rparr>)))"
proof -
  let ?k = "hd (downloadQueue s)"
  let ?s1 = "s\<lparr>downloadQueue := tl (downloadQueue s), started := started s @ [?k]\<rparr>"
  from assms(3) have kq: "?k \<in> set (downloadQueue s)" by simp
  have a1: "attempts_ok ?s1"
    by (rule attempts_frame [OF assms(2)]) (use assms(3) in \<open>auto dest: list.set_sel(2)\<close>)
  from assms(1,3) have nq: "?k \<notin> set (downloadQueue ?s1)"
    by (cases "downloadQueue s") (auto simp: wf_def)
  from wf_queue [OF assms(1) kq] have nw: "?k \<notin> set (workers ?s1)" "?k \<notin> set (timers ?s1)"
    by simp_all
  have pe: "\<And>d. objs ?s1 ?k = Some d \<Longrightarrow> length (spawns_of ?s1 ?k) = retryCount d"
  proof -
    fix d assume "objs ?s1 ?k = Some d"
    then have "objs s ?k = Some d" by simp
    with assms(2) kq have "spawns_of s ?k = [] \<and> retryCount d = 0"
      unfolding attempts_ok_def by blast
    then show "length (spawns_of ?s1 ?k) = retryCount d" by (simp add: spawns_of_def)
  qed
  show ?thesis by (rule startDownload_attempts [OF a1 nq nw pe])
qed

lemma processQueue_attempts:
  assumes "inv cf st" "attempts_ok st"
  shows "attempts_ok (fst (processQueue cf now st))"
proof -
  have "inv cf (fst (processQueue cf now st)) \<and> attempts_ok (fst (processQueue cf now st))"
  proof (rule processQueue_preserves [where P = "\<lambda>s. inv cf s \<and> attempts_ok s"])
    show "inv cf st \<and> attempts_ok st" using assms by simp
  next
    fix s :: engine
    assume p: "inv cf s \<and> attempts_ok s" and r: "runningCount s < MAX_CONCURRENT_DOWNLOADS cf"
      and q: "downloadQueue s \<noteq> []"
    from p have w: "wf s" by (simp add: inv_def)
    from promote_inv [of cf s now] p r q promote_attempts [OF w _ q, of now]
    show "inv cf (fst (startDownload (hd (downloadQueue s)) now
                (s\<lparr>downloadQueue := tl (downloadQueue s), started := started s @ [hd (downloadQueue s)]\<rparr>)))
        \<and> attempts_ok (fst (startDownload (hd (downloadQueue s)) now
                (s\<lparr>downloadQueue := tl (downloadQueue s), started := started s @ [hd (downloadQueue s)]\<rparr>)))"
      by simp
  qed
  then show ?thesis by simp
qed


lemma submit_mid_inv:
  assumes "inv cf st" "objs st k = None"
  shows "inv cf (broadcast ''update'' i
           (st\<lparr>objs := (objs st)(k \<mapsto> \<lparr>info = i\<lparr>status := ''queued''\<rparr>, config = Some c, process = None,
                                               retryCount = 0\<rparr>),
               activeDownloads := table_set k (activeDownloads st),
               downloadQueue := downloadQueue st @ [k],
               submitted := submitted st @ [k]\<rparr>))"
proof -
  from assms have w: "wf st" and r: "runningCount st \<le> MAX_CONCURRENT_DOWNLOADS cf"
    by (simp_all add: inv_def)
  from w assms(2) have fresh: "k \<notin> set (activeDownloads st)" "k \<notin> set (downloadQueue st)"
    "k \<notin> set (workers st)" "k \<notin> set (timers st)"
    by (auto simp: wf_def)
  let ?d = "\<lparr>info = i\<lparr>status := ''queued''\<rparr>, config = Some c, process = None, retryCount = 0\<rparr>"
  let ?st1 = "st\<lparr>objs := (objs st)(k \<mapsto> ?d),
                   activeDownloads := table_set k (activeDownloads st),
                   downloadQueue := downloadQueue st @ [k],
                   submitted := submitted st @ [k]\<rparr>"
  let ?st2 = "broadcast ''update'' i ?st1"
  have v: "objs ?st2 = (objs st)(k \<mapsto> ?d)" "activeDownloads ?st2 = activeDownloads st @ [k]"
    "downloadQueue ?st2 = downloadQueue st @ [k]" "workers ?st2 = workers st" "timers ?st2 = timers st"
    using fresh by (simp_all add: broadcast_def saveState_def Let_def table_set_def)
  have "wf ?st2"
    unfolding wf_def v using w fresh by (auto simp: wf_def count_list_0)
  moreover have "runningCount ?st2 = runningCount st"
    unfolding runningCount_rc v using fresh
    by (simp add: rc_append rc_upd_notin rc_Cons is_running_def)
  ultimately show "inv cf ?st2" using r by (simp add: inv_def)
qed

lemma cancel_entry_retries:
  "map_option retryCount (objs (fst (cancel_entry acc k)) j) = map_option retryCount (objs (fst acc) j)"
  by (simp add: cancel_entry_def broadcast_def saveState_def Let_def split: option.splits)

lemma cancel_fold_retries:
  "map_option retryCount (objs (fst (foldl cancel_entry acc ks)) j) = map_option retryCount (objs (fst acc) j)"
proof (induction ks arbitrary: acc)
  case Nil
  show ?case by simp
next
  case (Cons k ks)
  show ?case using Cons [of "cancel_entry acc k"] cancel_entry_retries [of acc k j] by simp
qed

lemma close_retry_attempts:
  assumes "attempts_ok st" "k \<in> set (workers st)" "objs st k = Some d"
    and "spawned st' = spawned st" "downloadQueue st' = downloadQueue st"
    and "workers st' = remove1 k (workers st)" "timers st' = timers st @ [k]"
    and "objs st' = (objs st)(k \<mapsto> d')" "retryCount d' = retryCount d + 1"
  shows "attempts_ok st'"
proof -
  have sp: "\<And>j. spawns_of st' j = spawns_of st j" by (simp add: spawns_of_def assms(4))
  from assms(1) have g: "\<And>j. count_list (workers st) j + count_list (timers st) j \<le> 1"
    by (simp add: attempts_ok_def)
  from count_pos [OF assms(2)] g [of k] have ck: "count_list (workers st) k = 1" "count_list (timers st) k = 0"
    by simp_all
  then have nw: "k \<notin> set (remove1 k (workers st))"
    using count_remove1_in [OF assms(2)] by (simp add: mem_count)
  from assms(1,2,3) have lk: "length (spawns_of st k) = retryCount d + 1"
    unfolding attempts_ok_def by blast
  from assms(1,3) lk have nq: "k \<notin> set (downloadQueue st)"
    unfolding attempts_ok_def by fastforce
  have a: "\<And>j. objs st' j = None \<Longrightarrow> spawns_of st' j = []"
    using assms(1) by (auto simp: assms(8) sp attempts_ok_def split: if_splits)
  have b: "\<And>j. count_list (workers st') j + count_list (timers st') j \<le> 1"
  proof -
    fix j show "count_list (workers st') j + count_list (timers st') j \<le> 1"
    proof (cases "j = k")
      case True
      with ck count_remove1_in [OF assms(2)] show ?thesis by (simp add: assms(6,7))
    next
      case False
      with g [of j] remove1_count_le [of k "workers st" j] show ?thesis by (simp add: assms(6,7))
    qed
  qed
  have c: "\<And>j d''. objs st' j = Some d'' \<Longrightarrow>
             (j \<in> set (workers st') \<longrightarrow> length (spawns_of st' j) = retryCount d'' + 1)
           \<and> (j \<in> set (timers st') \<longrightarrow> length (spawns_of st' j) = retryCount d'')
           \<and> (j \<in> set (downloadQueue st') \<longrightarrow> spawns_of st' j = [] \<and> retryCount d'' = 0)"
  proof -
    fix j d'' assume o: "objs st' j = Some d''"
    show "(j \<in> set (workers st') \<longrightarrow> length (spawns_of st' j) = retryCount d'' + 1)
           \<and> (j \<in> set (timers st') \<longrightarrow> length (spawns_of st' j) = retryCount d'')
           \<and> (j \<in> set (downloadQueue st') \<longrightarrow> spawns_of st' j = [] \<and> retryCount d'' = 0)"
    proof (cases "j = k")
      case True
      with o have "d'' = d'" by (simp add: assms(8))
      with True nw nq lk show ?thesis by (simp add: sp assms(5,6,7,9))
    next
      case False
      with o have "objs st j = Some d''" by (simp add: assms(8))
      with assms(1) have
        "(j \<in> set (workers st) \<longrightarrow> length (spawns_of st j) = retryCount d'' + 1)
           \<and> (j \<in> set (timers st) \<longrightarrow> length (spawns_of st j) = retryCount d'')
           \<and> (j \<in> set (downloadQueue st) \<longrightarrow> spawns_of st j = [] \<and> retryCount d'' = 0)"
        unfolding attempts_ok_def by blast
      with False show ?thesis by (auto simp: sp assms(5,6,7) dest: in_remove1)
    qed
  qed
  show ?thesis unfolding attempts_ok_def using a b c by blast
qed

lemma submit_attempts:
  assumes "wf st" "attempts_ok st" "objs st k = None"
    and "spawned st' = spawned st" "downloadQueue st' = downloadQueue st @ [k]"
    and "workers st' = workers st" "timers st' = timers st"
    and "objs st' = (objs st)(k \<mapsto> d')" "retryCount d' = 0"
  shows "attempts_ok st'"
proof -
  have sp: "\<And>j. spawns_of st' j = spawns_of st j" by (simp add: spawns_of_def assms(4))
  from assms(1,3) have fresh: "k \<notin> set (workers st)" "k \<notin> set (timers st)"
    by (auto simp: wf_def)
  from assms(2,3) have sk: "spawns_of st k = []" by (simp add: attempts_ok_def)
  have a: "\<And>j. objs st' j = None \<Longrightarrow> spawns_of st' j = []"
    using assms(2) by (auto simp: assms(8) sp attempts_ok_def split: if_splits)
  have b: "\<And>j. count_list (workers st') j + count_list (timers st') j \<le> 1"
    using assms(2) by (simp add: assms(6,7) attempts_ok_def)
  have c: "\<And>j d''. objs st' j = Some d'' \<Longrightarrow>
             (j \<in> set (workers st') \<longrightarrow> length (spawns_of st' j) = retryCount d'' + 1)
           \<and> (j \<in> set (timers st') \<longrightarrow> length (spawns_of st' j) = retryCount d'')
           \<and> (j \<in> set (downloadQueue st') \<longrightarrow> spawns_of st' j = [] \<and> retryCount d'' = 0)"
  proof -
    fix j d'' assume o: "objs st' j = Some d''"
    show "(j \<in> set (workers st') \<longrightarrow> length (spawns_of st' j) = retryCount d'' + 1)
           \<and> (j \<in> set (timers st') \<longrightarrow> length (spawns_of st' j) = retryCount d'')
           \<and> (j \<in> set (downloadQueue st') \<longrightarrow> spawns_of st' j = [] \<and> retryCount d'' = 0)"
    proof (cases "j = k")
      case True
      with o have "d'' = d'" by (simp add: assms(8))
      with True fresh sk show ?thesis by (simp add: sp assms(5,6,7,9))
    next
      case False
      with o have "objs st j = Some d''" by (simp add: assms(8))
      with assms(2) have
        "(j \<in> set (workers st) \<longrightarrow> length (spawns_of st j) = retryCount d'' + 1)
           \<and> (j \<in> set (timers st) \<longrightarrow> length (spawns_of st j) = retryCount d'')
           \<and> (j \<in> set (downloadQueue st) \<longrightarrow> spawns_of st j = [] \<and> retryCount d'' = 0)"
        unfolding attempts_ok_def by blast
      with False show ?thesis by (simp add: sp assms(5,6,7))
    qed
  qed
  show ?thesis unfolding attempts_ok_def using a b c by blast
qed

lemma step_attempts:
  assumes "inv cf st" "attempts_ok st"
  shows "attempts_ok (step cf st ev)"
proof (cases ev)
  case (Submit j now c)
  show ?thesis
  proof (cases "objs st j = None")
    case False
    with Submit assms show ?thesis by (auto simp: step_def)
  next
    case True
    let ?i = "\<lparr>iid = j, url = cfg_url c, filename = cfg_filename c, status = ''queued'',
                           progress = 0, speed = ''0 KB/s'', eta = ''--'', currentSize = ''0 B'',
                           fullSize = ''???'', startedAt = None, completedAt = None, error = None,
                           sizeBytes = None\<rparr>"
    let ?st2 = "broadcast ''update'' ?i (st\<lparr>objs := (objs st)(j \<mapsto> \<lparr>info = ?i, config = Some c, process = None,
                                               retryCount = 0\<rparr>),
                   activeDownloads := table_set j (activeDownloads st),
                   downloadQueue := downloadQueue st @ [j],
                   submitted := submitted st @ [j]\<rparr>)"
    from assms(1) have w: "wf st" by (simp add: inv_def)
    have i2: "inv cf ?st2" using submit_mid_inv [OF assms(1) True, of ?i c] by simp
    have "attempts_ok ?st2"
      by (rule submit_attempts [OF w assms(2) True, where d' = "\<lparr>info = ?i, config = Some c, process = None,
                                               retryCount = 0\<rparr>"])
        (simp_all add: broadcast_def saveState_def Let_def)
    from processQueue_attempts [OF i2 this, of now] True Submit
    show ?thesis by (simp add: step_def download_post_def Let_def)
  qed
next
  case (Data j n)
  show ?thesis unfolding Data step_def
    by (cases "j \<in> set (workers st)", simp_all add: assms, rule attempts_frame [OF assms(2)])
      (auto simp: on_data_def broadcast_def saveState_def Let_def split: option.splits)
next
  case (Close j code lastError now)
  show ?thesis
  proof (cases "j \<in> set (workers st)")
    case False
    with Close assms show ?thesis by (simp add: step_def)
  next
    case jw: True
    let ?s0 = "st\<lparr>workers := remove1 j (workers st)\<rparr>"
    have eq: "step cf st ev = on_close cf j code lastError now ?s0"
      using jw Close by (simp add: step_def)
    show ?thesis
    proof (cases "\<exists>d. objs st j = Some d \<and> code \<noteq> Some 0 \<and> shouldRetry cf d lastError code")
      case False
      show ?thesis unfolding eq
        by (rule attempts_frame [OF assms(2)])
          (use False in \<open>auto simp: on_close_def broadcast_def saveState_def Let_def remove1_count_le
             split: option.splits\<close>)
    next
      case True
      then obtain d where d: "objs st j = Some d" "code \<noteq> Some 0" "shouldRetry cf d lastError code"
        by blast
      show ?thesis unfolding eq
        by (rule close_retry_attempts [OF assms(2) jw d(1), where
              d' = "d\<lparr>retryCount := retryCount d + 1, info := (info d)\<lparr>status := ''retrying''\<rparr>\<rparr>"])
          (use d in \<open>simp_all add: on_close_def broadcast_def saveState_def Let_def\<close>)
    qed
  qed
next
  case (Finish j stat moved date)
  show ?thesis
  proof (cases "j \<in> set (finishing st) \<and> (\<exists>d c. objs st j = Some d \<and> config d = Some c)")
    case False
    with Finish assms show ?thesis
      by (auto simp: step_def on_finish_def attempts_ok_def spawns_of_def split: option.splits)
  next
    case True
    then obtain d c where d: "objs st j = Some d" "config d = Some c" by blast
    let ?ff = "cfg_filename c @ (if isVideo_of c \<and> \<not> isTorrent_of c then ''.mp4'' else [])"
    let ?i1 = "(case stat of None \<Rightarrow> info d
                          | Some (sz, bytes) \<Rightarrow> (info d)\<lparr>fullSize := sz, sizeBytes := Some bytes\<rparr>)"
    let ?i2 = "?i1\<lparr>filename := (case moved of None \<Rightarrow> ?ff | Some base \<Rightarrow> path_join base ?ff)\<rparr>"
    let ?st0 = "st\<lparr>finishing := remove1 j (finishing st)\<rparr>"
    let ?st2 = "broadcast ''status-change'' ?i2 (?st0\<lparr>objs := (objs ?st0)(j \<mapsto> d\<lparr>info := ?i2\<rparr>),
                             historyList := historyList ?st0 @ [(?i2, date)],
                             activeDownloads := remove1 j (activeDownloads ?st0)\<rparr>)"
    have i2: "inv cf ?st2"
      by (rule leave_inv [OF assms(1), where k = j and d' = "d\<lparr>info := ?i2\<rparr>"])
        (simp_all add: broadcast_def saveState_def Let_def)
    have "attempts_ok ?st2"
      by (rule attempts_frame [OF assms(2)]) (auto simp: d broadcast_def saveState_def Let_def)
    from processQueue_attempts [OF i2 this, of date] True Finish d
    show ?thesis by (simp add: step_def on_finish_def Let_def)
  qed
next
  case (ProcError j msg now)
  show ?thesis
  proof (cases "j \<in> set (workers st) \<and> (\<exists>d. objs st j = Some d)")
    case False
    with ProcError assms show ?thesis
      by (auto simp: step_def on_proc_error_def split: option.splits)
  next
    case True
    then obtain d where d: "objs st j = Some d" by blast
    let ?d1 = "d\<lparr>info := (info d)\<lparr>status := ''error'', error := Some (Text msg)\<rparr>\<rparr>"
    let ?st1 = "broadcast ''status-change'' (info ?d1) (st\<lparr>objs := (objs st)(j \<mapsto> ?d1)\<rparr>)"
    let ?st2 = "?st1\<lparr>activeDownloads := remove1 j (activeDownloads ?st1)\<rparr>"
    have i2: "inv cf ?st2"
      by (rule leave_inv [OF assms(1), where k = j and d' = ?d1]) (simp_all add: broadcast_def saveState_def Let_def)
    have "attempts_ok ?st2"
      by (rule attempts_frame [OF assms(2)]) (auto simp: d broadcast_def saveState_def Let_def)
    from processQueue_attempts [OF i2 this, of now] True ProcError d
    show ?thesis by (simp add: step_def on_proc_error_def Let_def)
  qed
next
  case (RetryTimer j now)
  show ?thesis
  proof (cases "j \<in> set (timers st)")
    case False
    with RetryTimer assms show ?thesis by (simp add: step_def)
  next
    case True
    let ?s0 = "st\<lparr>timers := remove1 j (timers st)\<rparr>"
    from assms(2) have g: "count_list (workers st) j + count_list (timers st) j \<le> 1"
      by (simp add: attempts_ok_def)
    with count_pos [OF True] have ck: "count_list (timers st) j = 1" "count_list (workers st) j = 0"
      by simp_all
    have a0: "attempts_ok ?s0"
      by (rule attempts_frame [OF assms(2)]) (simp_all add: remove1_count_le)
    have nw: "j \<notin> set (workers ?s0)" using ck by (simp add: mem_count)
    have nt: "j \<notin> set (timers ?s0)" using ck count_remove1_in [OF True] by (simp add: mem_count)
    have pe: "\<And>d. objs ?s0 j = Some d \<Longrightarrow> length (spawns_of ?s0 j) = retryCount d"
    proof -
      fix d assume "objs ?s0 j = Some d"
      then have "objs st j = Some d" by simp
      with assms(2) True have "length (spawns_of st j) = retryCount d"
        unfolding attempts_ok_def by blast
      then show "length (spawns_of ?s0 j) = retryCount d" by (simp add: spawns_of_def)
    qed
    have nq: "j \<notin> set (downloadQueue ?s0)"
      using wf_queue [of st j] assms(1) True by (auto simp: inv_def)
    from startDownload_attempts [OF a0 nq nw nt pe, of now] True RetryTimer
    show ?thesis by (simp add: step_def)
  qed
next
  case (Cancel idv)
  show ?thesis unfolding Cancel step_def
    by (simp, rule attempts_frame [OF assms(2)])
      (auto simp: cancel_def table_get_def broadcast_def saveState_def Let_def
        split: option.splits if_splits)
next
  case CancelAll
  have eq: "step cf st CancelAll = fst (cancel_all st)" by (simp add: step_def)
  show ?thesis unfolding CancelAll eq
  proof (rule attempts_frame [OF assms(2)])
    show "spawned (fst (cancel_all st)) = spawned st"
      using cancel_fold_frame [of "(st, 0)" "activeDownloads st"]
      by (simp add: cancel_all_def saveState_def Let_def)
  next
    fix k show "map_option retryCount (objs (fst (cancel_all st)) k) = map_option retryCount (objs st k)"
      using cancel_fold_retries [of "(st, 0)" "activeDownloads st" k]
      by (simp add: cancel_all_def saveState_def Let_def)
  next
    fix k show "count_list (workers (fst (cancel_all st))) k \<le> count_list (workers st) k"
      using cancel_fold_view [of "(st, 0)" "activeDownloads st"]
      by (simp add: cancel_all_def saveState_def Let_def)
  next
    fix k show "count_list (timers (fst (cancel_all st))) k \<le> count_list (timers st) k"
      using cancel_fold_view [of "(st, 0)" "activeDownloads st"]
      by (simp add: cancel_all_def saveState_def Let_def)
  next
    show "set (downloadQueue (fst (cancel_all st))) \<subseteq> set (downloadQueue st)"
      using cancel_fold_view [of "(st, 0)" "activeDownloads st"]
      by (simp add: cancel_all_def saveState_def Let_def)
  qed
qed

lemma run_attempts:
  "inv cf st \<Longrightarrow> attempts_ok st \<Longrightarrow> attempts_ok (run cf st evs)"
proof (induction evs arbitrary: st)
  case Nil
  then show ?case by (simp add: run_def)
next
  case (Cons ev evs)
  from Cons.IH [of "step cf st ev"] step_inv [OF Cons.prems(1), of ev]
    step_attempts [OF Cons.prems, of ev]
  show ?case by (simp add: run_def)
qed

lemma boot_attempts: "attempts_ok (boot data hist)"
  using load_fold_view [of empty_engine]
  by (cases data) (simp_all add: boot_def loadState_def attempts_ok_def spawns_of_def empty_engine_def Let_def)

lemma first_attempt:
  assumes "st = run cf (boot data hist) evs" "k \<in> set (workers st)" "retries_of st k = Some 0"
  shows "length (spawns_of st k) = 1"
proof -
  have "attempts_ok st" unfolding assms(1)
    by (rule run_attempts [OF boot_inv boot_attempts])
  moreover from assms(3) obtain d where "objs st k = Some d" "retryCount d = 0"
    by (auto simp: retries_of_def)
  ultimately show ?thesis using assms(2) unfolding attempts_ok_def by fastforce
qed

lemma bound_frame:
  assumes "attempts_bound cf st"
    and "spawned st' = spawned st"
    and "\<And>k. map_option retryCount (objs st' k) = map_option retryCount (objs st k)"
  shows "attempts_bound cf st'"
  unfolding attempts_bound_def
proof (intro allI impI)
  fix k d' assume d': "objs st' k = Some d'"
  with assms(3) [of k] obtain d where d: "objs st k = Some d" "retryCount d = retryCount d'"
    by (cases "objs st k") auto
  from assms(1) d(1) have "retryCount d \<le> RETRY_ATTEMPTS cf \<and> length (spawns_of st k) \<le> retryCount d + 1"
    unfolding attempts_bound_def by blast
  with d(2) show "retryCount d' \<le> RETRY_ATTEMPTS cf \<and> length (spawns_of st' k) \<le> retryCount d' + 1"
    by (simp add: spawns_of_def assms(2))
qed

lemma startDownload_bound:
  assumes "attempts_bound cf s"
    and "\<And>d. objs s k = Some d \<Longrightarrow> length (spawns_of s k) = retryCount d"
  shows "attempts_bound cf (fst (startDownload k now s))"
proof -
  let ?s = "fst (startDownload k now s)"
  from startDownload_shape [of k now s]
  have r: "\<And>j. map_option retryCount (objs ?s j) = map_option retryCount (objs s j)"
    and c: "(spawned ?s = spawned s \<and> workers ?s = workers s)
      \<or> (\<exists>cmd args. spawned ?s = spawned s @ [(k, cmd, args)]
            \<and> workers ?s = workers s @ [k] \<and> objs s k \<noteq> None)"
    by simp_all
  from c show ?thesis
  proof
    assume "spawned ?s = spawned s \<and> workers ?s = workers s"
    then show ?thesis by (intro bound_frame [OF assms(1)]) (simp_all add: r)
  next
    assume "\<exists>cmd args. spawned ?s = spawned s @ [(k, cmd, args)]
            \<and> workers ?s = workers s @ [k] \<and> objs s k \<noteq> None"
    then obtain cmd args where sp: "spawned ?s = spawned s @ [(k, cmd, args)]" by blast
    note so = spawns_of_snoc [OF sp]
    show ?thesis unfolding attempts_bound_def
    proof (intro allI impI)
      fix j d' assume d': "objs ?s j = Some d'"
      with r [of j] obtain d where d: "objs s j = Some d" "retryCount d = retryCount d'"
        by (cases "objs s j") auto
      from assms(1) d(1) have h: "retryCount d \<le> RETRY_ATTEMPTS cf \<and> length (spawns_of s j) \<le> retryCount d + 1"
        unfolding attempts_bound_def by blast
      show "retryCount d' \<le> RETRY_ATTEMPTS cf \<and> length (spawns_of ?s j) \<le> retryCount d' + 1"
      proof (cases "j = k")
        case True
        with assms(2) [of d] d h show ?thesis by (simp add: so)
      next
        case False
        with h d(2) show ?thesis by (simp add: so)
      qed
    qed
  qed
qed

lemma processQueue_bound:
  assumes "inv cf st" "attempts_ok st" "attempts_bound cf st"
  shows "attempts_bound cf (fst (processQueue cf now st))"
proof -
  let ?P = "\<lambda>s. inv cf s \<and> attempts_ok s \<and> attempts_bound cf s"
  have "?P (fst (processQueue cf now st))"
  proof (rule processQueue_preserves [where P = ?P])
    show "?P st" using assms by simp
  next
    fix s :: engine
    let ?k = "hd (downloadQueue s)"
    let ?s1 = "s\<lparr>downloadQueue := tl (downloadQueue s), started := started s @ [?k]\<rparr>"
    assume p: "?P s" and r: "runningCount s < MAX_CONCURRENT_DOWNLOADS cf"
      and q: "downloadQueue s \<noteq> []"
    from p have w: "wf s" by (simp add: inv_def)
    from q have kq: "?k \<in> set (downloadQueue s)" by simp
    have b1: "attempts_bound cf ?s1"
      by (rule bound_frame [where st = s]) (use p in simp_all)
    have pe: "\<And>d. objs ?s1 ?k = Some d \<Longrightarrow> length (spawns_of ?s1 ?k) = retryCount d"
    proof -
      fix d assume "objs ?s1 ?k = Some d"
      then have "objs s ?k = Some d" by simp
      with p kq have "spawns_of s ?k = [] \<and> retryCount d = 0"
        unfolding attempts_ok_def by blast
      then show "length (spawns_of ?s1 ?k) = retryCount d" by (simp add: spawns_of_def)
    qed
    from promote_inv [of cf s now] p r q promote_attempts [OF w _ q, of now]
      startDownload_bound [OF b1 pe, of now]
    show "?P (fst (startDownload ?k now ?s1))" by simp
  qed
  then show ?thesis by simp
qed

lemma step_bound:
  assumes "inv cf st" "attempts_ok st" "attempts_bound cf st"
  shows "attempts_bound cf (step cf st ev)"
proof (cases ev)
  case (Submit j now c)
  show ?thesis
  proof (cases "objs st j = None")
    case False
    with Submit assms show ?thesis by (auto simp: step_def)
  next
    case True
    let ?i = "\<lparr>iid = j, url = cfg_url c, filename = cfg_filename c, status = ''queued'',
                           progress = 0, speed = ''0 KB/s'', eta = ''--'', currentSize = ''0 B'',
                           fullSize = ''???'', startedAt = None, completedAt = None, error = None,
                           sizeBytes = None\<rparr>"
    let ?st2 = "broadcast ''update'' ?i (st\<lparr>objs := (objs st)(j \<mapsto> \<lparr>info = ?i, config = Some c, process = None,
                                               retryCount = 0\<rparr>),
                   activeDownloads := table_set j (activeDownloads st),
                   downloadQueue := downloadQueue st @ [j],
                   submitted := submitted st @ [j]\<rparr>)"
    from assms(1) have w: "wf st" by (simp add: inv_def)
    have i2: "inv cf ?st2" using submit_mid_inv [OF assms(1) True, of ?i c] by simp
    have a2: "attempts_ok ?st2"
      by (rule submit_attempts [OF w assms(2) True, where d' = "\<lparr>info = ?i, config = Some c, process = None,
                                               retryCount = 0\<rparr>"])
        (simp_all add: broadcast_def saveState_def Let_def)
    from assms(2) True have sj: "spawns_of st j = []" by (simp add: attempts_ok_def)
    have "attempts_bound cf ?st2"
      using assms(3) sj
      by (auto simp: attempts_bound_def spawns_of_def broadcast_def saveState_def Let_def)
    from processQueue_bound [OF i2 a2 this, of now] True Submit
    show ?thesis by (simp add: step_def download_post_def Let_def)
  qed
next
  case (Data j n)
  show ?thesis unfolding Data step_def
    by (cases "j \<in> set (workers st)", simp_all add: assms, rule bound_frame [OF assms(3)])
      (auto simp: on_data_def broadcast_def saveState_def Let_def split: option.splits)
next
  case (Close j code lastError now)
  show ?thesis
  proof (cases "j \<in> set (workers st)")
    case False
    with Close assms show ?thesis by (simp add: step_def)
  next
    case jw: True
    let ?s0 = "st\<lparr>workers := remove1 j (workers st)\<rparr>"
    have eq: "step cf st ev = on_close cf j code lastError now ?s0"
      using jw Close by (simp add: step_def)
    show ?thesis
    proof (cases "\<exists>d. objs st j = Some d \<and> code \<noteq> Some 0 \<and> shouldRetry cf d lastError code")
      case False
      show ?thesis unfolding eq
        by (rule bound_frame [OF assms(3)])
          (use False in \<open>auto simp: on_close_def broadcast_def saveState_def Let_def
             split: option.splits\<close>)
    next
      case True
      then obtain d where d: "objs st j = Some d" "code \<noteq> Some 0" "shouldRetry cf d lastError code"
        by blast
      from d(3) have lt: "retryCount d < RETRY_ATTEMPTS cf" by (simp add: shouldRetry_def)
      let ?d2 = "d\<lparr>retryCount := retryCount d + 1, info := (info d)\<lparr>status := ''retrying''\<rparr>\<rparr>"
      have o: "objs (on_close cf j code lastError now ?s0) = (objs st)(j \<mapsto> ?d2)"
        and sp: "spawned (on_close cf j code lastError now ?s0) = spawned st"
        using d by (simp_all add: on_close_def broadcast_def saveState_def Let_def)
      show ?thesis unfolding eq attempts_bound_def
      proof (intro allI impI)
        fix k d' assume k: "objs (on_close cf j code lastError now ?s0) k = Some d'"
        show "retryCount d' \<le> RETRY_ATTEMPTS cf
            \<and> length (spawns_of (on_close cf j code lastError now ?s0) k) \<le> retryCount d' + 1"
        proof (cases "k = j")
          case True
          with k o have "d' = ?d2" by simp
          moreover from assms(3) d(1) have "length (spawns_of st j) \<le> retryCount d + 1"
            unfolding attempts_bound_def by blast
          ultimately show ?thesis using lt True by (simp add: spawns_of_def sp)
        next
          case False
          with k o have "objs st k = Some d'" by simp
          with assms(3) show ?thesis unfolding attempts_bound_def by (simp add: spawns_of_def sp)
        qed
      qed
    qed
  qed
next
  case (Finish j stat moved date)
  show ?thesis
  proof (cases "j \<in> set (finishing st) \<and> (\<exists>d c. objs st j = Some d \<and> config d = Some c)")
    case False
    with Finish assms show ?thesis
      by (auto simp: step_def on_finish_def attempts_bound_def spawns_of_def split: option.splits)
  next
    case True
    then obtain d c where d: "objs st j = Some d" "config d = Some c" by blast
    let ?ff = "cfg_filename c @ (if isVideo_of c \<and> \<not> isTorrent_of c then ''.mp4'' else [])"
    let ?i1 = "(case stat of None \<Rightarrow> info d
                          | Some (sz, bytes) \<Rightarrow> (info d)\<lparr>fullSize := sz, sizeBytes := Some bytes\<rparr>)"
    let ?i2 = "?i1\<lparr>filename := (case moved of None \<Rightarrow> ?ff | Some base \<Rightarrow> path_join base ?ff)\<rparr>"
    let ?st0 = "st\<lparr>finishing := remove1 j (finishing st)\<rparr>"
    let ?st2 = "broadcast ''status-change'' ?i2 (?st0\<lparr>objs := (objs ?st0)(j \<mapsto> d\<lparr>info := ?i2\<rparr>),
                             historyList := historyList ?st0 @ [(?i2, date)],
                             activeDownloads := remove1 j (activeDownloads ?st0)\<rparr>)"
    have i2: "inv cf ?st2"
      by (rule leave_inv [OF assms(1), where k = j and d' = "d\<lparr>info := ?i2\<rparr>"])
        (simp_all add: broadcast_def saveState_def Let_def)
    have a2: "attempts_ok ?st2"
      by (rule attempts_frame [OF assms(2)]) (auto simp: d broadcast_def saveState_def Let_def)
    have "attempts_bound cf ?st2"
      by (rule bound_frame [OF assms(3)]) (auto simp: d broadcast_def saveState_def Let_def)
    from processQueue_bound [OF i2 a2 this, of date] True Finish d
    show ?thesis by (simp add: step_def on_finish_def Let_def)
  qed
next
  case (ProcError j msg now)
  show ?thesis
  proof (cases "j \<in> set (workers st) \<and> (\<exists>d. objs st j = Some d)")
    case False
    with ProcError assms show ?thesis
      by (auto simp: step_def on_proc_error_def split: option.splits)
  next
    case True
    then obtain d where d: "objs st j = Some d" by blast
    let ?d1 = "d\<lparr>info := (info d)\<lparr>status := ''error'', error := Some (Text msg)\<rparr>\<rparr>"
    let ?st1 = "broadcast ''status-change'' (info ?d1) (st\<lparr>objs := (objs st)(j \<mapsto> ?d1)\<rparr>)"
    let ?st2 = "?st1\<lparr>activeDownloads := remove1 j (activeDownloads ?st1)\<rparr>"
    have i2: "inv cf ?st2"
      by (rule leave_inv [OF assms(1), where k = j and d' = ?d1]) (simp_all add: broadcast_def saveState_def Let_def)
    have a2: "attempts_ok ?st2"
      by (rule attempts_frame [OF assms(2)]) (auto simp: d broadcast_def saveState_def Let_def)
    have "attempts_bound cf ?st2"
      by (rule bound_frame [OF assms(3)]) (auto simp: d broadcast_def saveState_def Let_def)
    from processQueue_bound [OF i2 a2 this, of now] True ProcError d
    show ?thesis by (simp add: step_def on_proc_error_def Let_def)
  qed
next
  case (RetryTimer j now)
  show ?thesis
  proof (cases "j \<in> set (timers st)")
    case False
    with RetryTimer assms show ?thesis by (simp add: step_def)
  next
    case True
    let ?s0 = "st\<lparr>timers := remove1 j (timers st)\<rparr>"
    have b0: "attempts_bound cf ?s0"
      by (rule bound_frame [OF assms(3)]) simp_all
    have pe: "\<And>d. objs ?s0 j = Some d \<Longrightarrow> length (spawns_of ?s0 j) = retryCount d"
    proof -
      fix d assume "objs ?s0 j = Some d"
      then have "objs st j = Some d" by simp
      with assms(2) True have "length (spawns_of st j) = retryCount d"
        unfolding attempts_ok_def by blast
      then show "length (spawns_of ?s0 j) = retryCount d" by (simp add: spawns_of_def)
    qed
    from startDownload_bound [OF b0 pe, of now] True RetryTimer
    show ?thesis by (simp add: step_def)
  qed
next
  case (Cancel idv)
  show ?thesis unfolding Cancel step_def
    by (simp, rule bound_frame [OF assms(3)])
      (auto simp: cancel_def table_get_def broadcast_def saveState_def Let_def
        split: option.splits if_splits)
next
  case CancelAll
  have eq: "step cf st CancelAll = fst (cancel_all st)" by (simp add: step_def)
  show ?thesis unfolding CancelAll eq
  proof (rule bound_frame [OF assms(3)])
    show "spawned (fst (cancel_all st)) = spawned st"
      using cancel_fold_frame [of "(st, 0)" "activeDownloads st"]
      by (simp add: cancel_all_def saveState_def Let_def)
  next
    fix k show "map_option retryCount (objs (fst (cancel_all st)) k) = map_option retryCount (objs st k)"
      using cancel_fold_retries [of "(st, 0)" "activeDownloads st" k]
      by (simp add: cancel_all_def saveState_def Let_def)
  qed
qed

lemma run_attempts_all:
  "inv cf st \<Longrightarrow> attempts_ok st \<Longrightarrow> attempts_bound cf st \<Longrightarrow>
     attempts_ok (run cf st evs) \<and> attempts_bound cf (run cf st evs)"
proof (induction evs arbitrary: st)
  case Nil
  then show ?case by (simp add: run_def)
next
  case (Cons ev evs)
  from Cons.IH [of "step cf st ev"] step_inv [OF Cons.prems(1), of ev]
    step_attempts [OF Cons.prems(1,2), of ev] step_bound [OF Cons.prems, of ev]
  show ?case by (simp add: run_def)
qed

lemma load_fold_retries:
  assumes "\<And>k d. objs st k = Some d \<Longrightarrow> retryCount d = 0"
  shows "objs (foldl load_entry st is) k = Some d \<Longrightarrow> retryCount d = 0"
proof (induction "is" arbitrary: k d rule: rev_induct)
  case Nil
  with assms show ?case by simp
next
  case (snoc x xs)
  then show ?case
    by (cases "k = iid x") (auto simp: load_entry_objs loaded_def)
qed

lemma boot_bound: "attempts_bound cf (boot data hist)"
proof -
  have sp: "spawned (boot data hist) = []"
    using load_fold_view [of empty_engine]
    by (cases data) (simp_all add: boot_def loadState_def empty_engine_def Let_def)
  have rc: "\<And>k d. objs (boot data hist) k = Some d \<Longrightarrow> retryCount d = 0"
    using load_fold_retries [of empty_engine]
    by (cases data) (simp_all add: boot_def loadState_def empty_engine_def Let_def)
  show ?thesis unfolding attempts_bound_def using rc by (auto simp: spawns_of_def sp)
qed

lemma attempts_at_most:
  "length (spawns_of (run cf (boot data hist) evs) k) \<le> RETRY_ATTEMPTS cf + 1"
proof -
  let ?st = "run cf (boot data hist) evs"
  from run_attempts_all [OF boot_inv boot_attempts boot_bound, of cf data hist evs]
  have a: "attempts_ok ?st" and b: "attempts_bound cf ?st" by simp_all
  show ?thesis
  proof (cases "objs ?st k")
    case None
    with a show ?thesis by (simp add: attempts_ok_def)
  next
    case (Some d)
    with b have "retryCount d \<le> RETRY_ATTEMPTS cf" "length (spawns_of ?st k) \<le> retryCount d + 1"
      unfolding attempts_bound_def by blast+
    then show ?thesis by simp
  qed
qed

lemma exit_decision:
  assumes "j \<in> set (workers s)" "objs s j = Some d0" "code \<noteq> Some 0"
  shows "(let retry = (retryCount d0 < RETRY_ATTEMPTS cf
                \<and> (str_includes err ''503'' \<or> str_includes err ''Connection''
                   \<or> str_includes err ''timeout'' \<or> str_includes err ''SSL''
                   \<or> code = Some 3 \<or> code = Some 7));
              s' = step cf s (Close j code err now)
          in timers s' = (if retry then timers s @ [j] else timers s)
             \<and> status_of s' j = Some (if retry then ''retrying'' else ''error'')
             \<and> retries_of s' j = Some (if retry then retryCount d0 + 1 else retryCount d0)
             \<and> downloadQueue s' = downloadQueue s \<and> spawned s' = spawned s)"
  using assms
  by (simp add: step_def on_close_def shouldRetry_def transient_def Let_def broadcast_def saveState_def
      status_of_def retries_of_def)

subsection \<open>Runs of the retrieval route\<close>








section \<open>Properties of the queueing server\<close>

subsection \<open>A rejected cancel request\<close>

text \<open>
  C10. A single-job cancel request whose body carries no id (the field is absent or the
  empty string) is answered with status 400, and one whose id is not a key of the table
  of active jobs is answered with status 404. In both cases the whole state of the
  server is the state before the request: the table, the queue, every job object and the
  list of broadcast events are unchanged.
\<close>

theorem cancel_error_atomic:
  assumes "idv = None \<or> idv = Some [] \<or> (\<exists>k. idv = Some k \<and> k \<notin> set (activeDownloads st))"
  shows "fst (cancel idv st) = st \<and> snd (cancel idv st) = (if truthy idv then 404 else 400)"
  using assms by (auto simp: cancel_def truthy_def table_get_def split: option.splits)

theorem cancel_error_atomic_witness:
  "fst (cancel None empty_engine) = empty_engine \<and> snd (cancel None empty_engine) = 400
   \<and> fst (cancel (Some ''j1'') empty_engine) = empty_engine
   \<and> snd (cancel (Some ''j1'') empty_engine) = 404"
  using cancel_error_atomic [of None empty_engine]
    cancel_error_atomic [of "Some ''j1''" empty_engine]
  by (simp add: truthy_def empty_engine_def)

subsection \<open>The bound on running jobs\<close>

text \<open>
  C1. In every state the server reaches, from start-up on any persisted files and through
  any sequence of events, the number of entries of the active table whose status is
  \<open>downloading\<close> or \<open>retrying\<close> is at most \<open>MAX_CONCURRENT_DOWNLOADS\<close>.
\<close>

theorem running_bound:
  "runningCount (run cf (boot data hist) evs) \<le> MAX_CONCURRENT_DOWNLOADS cf"
  using run_inv [OF boot_inv, of cf data hist evs] by (simp add: inv_def)

lemma two_submits_eval:
  "runningCount (run one_slot (boot None None) two_submits) = 1"
  "MAX_CONCURRENT_DOWNLOADS one_slot = 1"
  by code_simp+

theorem running_bound_witness:
  "runningCount (run one_slot (boot None None) two_submits) \<le> MAX_CONCURRENT_DOWNLOADS one_slot
   \<and> runningCount (run one_slot (boot None None) two_submits) = 1"
  using running_bound [of one_slot None None two_submits] two_submits_eval by simp

subsection \<open>First in, first out\<close>




subsection \<open>Restoring the persisted state\<close>

text \<open>
  C4. Start-up on a state file: every saved job is put in the table under its id with no
  worker handle, no config and a retry count of 0, its info being the saved info of that
  id after \<open>restore\<close>; \<open>restore\<close> rewrites a status \<open>downloading\<close> or
  \<open>retrying\<close> to \<open>interrupted\<close> and sets the synthetic error text, and leaves an info of
  any other status as it is. Start-up spawns no worker and queues nothing, and in no run
  after it is a worker ever spawned for a loaded job.
\<close>

theorem loadState_interrupts:
  assumes "i \<in> set data"
  shows "(\<exists>j \<in> set data. iid j = iid i
            \<and> table_get (boot (Some data) hist) (iid i) = Some (loaded j))
     \<and> status (restore i) =
          (if status i = ''downloading'' \<or> status i = ''retrying'' then ''interrupted'' else status i)
     \<and> (if status i = ''downloading'' \<or> status i = ''retrying''
         then error (restore i) = Some (Text (''Arr'' @ [CHR 0xEA] @ ''t du serveur''))
         else restore i = i)
     \<and> downloadQueue (boot (Some data) hist) = [] \<and> spawned (boot (Some data) hist) = []
     \<and> spawns_of (run cf (boot (Some data) hist) evs) (iid i) = []"
proof -
  let ?b = "boot (Some data) hist"
  have o: "objs ?b = objs (foldl load_entry empty_engine data)"
    and a: "activeDownloads ?b = activeDownloads (foldl load_entry empty_engine data)"
    and q: "downloadQueue ?b = []" and s: "spawned ?b = []"
    using load_fold_view [of empty_engine data]
    by (simp_all add: boot_def loadState_def Let_def empty_engine_def)
  from load_fold_objs [OF assms, of empty_engine] obtain j
    where j: "j \<in> set data" "iid j = iid i" "objs ?b (iid i) = Some (loaded j)"
    unfolding o by blast
  have k: "iid i \<in> set (activeDownloads ?b)"
    unfolding a load_fold_keys using assms by simp
  from j k have 1: "\<exists>j \<in> set data. iid j = iid i \<and> table_get ?b (iid i) = Some (loaded j)"
    by (auto simp: table_get_def)
  have d: "dead ?b (iid i)" using j(3) by (simp add: dead_def loaded_def)
  from run_dead [OF d, of cf evs] s have 2: "spawns_of (run cf ?b evs) (iid i) = []"
    by (simp add: spawns_of_def)
  show ?thesis using 1 2 q s by (simp add: restore_def)
qed

lemma saved_jobs_eval:
  "saved_job ''L1'' ''downloading'' \<in> set saved_jobs"
  "iid (saved_job ''L1'' ''downloading'') = ''L1''"
  "map_option (status \<circ> info) (table_get (boot (Some saved_jobs) None) ''L1'') = Some ''interrupted''"
  "map_option (status \<circ> info) (table_get (boot (Some saved_jobs) None) ''L2'') = Some ''completed''"
  by code_simp+

theorem loadState_interrupts_witness:
  "map_option (status \<circ> info) (table_get (boot (Some saved_jobs) None) ''L1'') = Some ''interrupted''
   \<and> map_option (status \<circ> info) (table_get (boot (Some saved_jobs) None) ''L2'') = Some ''completed''
   \<and> spawns_of (run one_slot (boot (Some saved_jobs) None) two_submits) ''L1'' = []"
  using loadState_interrupts [OF saved_jobs_eval(1), of None one_slot two_submits] saved_jobs_eval
  by simp

subsection \<open>Exit code 0\<close>

text \<open>
  C6. The video job at 40 percent, with one slot. When its worker exits with code 0 the
  handler sets the job to \<open>completed\<close> with progress 100 and \<open>completedAt\<close>, and leaves it
  in the table while it awaits the size of the file. A cancel request for the job, or a
  cancel-all request, handled before the handler resumes finds the job in the table and
  sets it to \<open>cancelled\<close>: that is the final status of the job, the history item written
  by the resumed handler is \<open>cancelled\<close> with progress 100, and no broadcast ever reports
  \<open>completed\<close>. With no request in between the job ends \<open>completed\<close>. The \<open>close\<close> handler
  of the first server sets \<open>completed\<close> and removes the job from the table in one go.
\<close>

theorem exit_zero_then_cancelled:
  "map_option (progress \<circ> info) (objs at_forty ''A'') = Some 40
   \<and> status_of (run one_slot at_forty [Close ''A'' (Some 0) [] ''t1'']) ''A'' = Some ''completed''
   \<and> activeDownloads (run one_slot at_forty [Close ''A'' (Some 0) [] ''t1'']) = [''A'']
   \<and> status_of (run one_slot at_forty cancel_after_exit) ''A'' = Some ''cancelled''
   \<and> map (\<lambda>e. (iid (fst e), status (fst e), progress (fst e), completedAt (fst e)))
        (historyList (run one_slot at_forty cancel_after_exit))
       = [(''A'', ''cancelled'', 100, Some ''t1'')]
   \<and> map (\<lambda>e. (fst e, status (snd e))) (events (run one_slot at_forty cancel_after_exit))
       = [(''update'', ''queued''), (''status-change'', ''downloading''), (''update'', ''downloading''),
          (''status-change'', ''cancelled''), (''status-change'', ''cancelled'')]
   \<and> status_of (run one_slot at_forty cancel_all_after_exit) ''A'' = Some ''cancelled''
   \<and> map (\<lambda>e. (iid (fst e), status (fst e), progress (fst e), completedAt (fst e)))
        (historyList (run one_slot at_forty cancel_all_after_exit))
       = [(''A'', ''cancelled'', 100, Some ''t1'')]
   \<and> status_of (run one_slot at_forty exit_undisturbed) ''A'' = Some ''completed''
   \<and> map (\<lambda>e. (iid (fst e), status (fst e), progress (fst e), completedAt (fst e)))
        (historyList (run one_slot at_forty exit_undisturbed))
       = [(''A'', ''completed'', 100, Some ''t1'')]
   \<and> status (fst (launch_close one_slot 0 (Some 0) [] ''t1'' (info (the (objs at_forty ''A''))))) = ''completed''
   \<and> snd (launch_close one_slot 0 (Some 0) [] ''t1'' (info (the (objs at_forty ''A'')))) = Removed"
  by code_simp

text \<open>What the handler of the exit does by itself, and what the resumed handler records.\<close>

lemma exit_zero_sets_completed:
  assumes "st = run cf (boot data hist) evs" "k \<in> set (workers st)"
  shows "(\<exists>d1. objs (step cf st (Close k (Some 0) err now)) k = Some d1
            \<and> status (info d1) = ''completed'' \<and> progress (info d1) = 100
            \<and> completedAt (info d1) = Some now)
     \<and> activeDownloads (step cf st (Close k (Some 0) err now)) = activeDownloads st
     \<and> (\<exists>i. historyList (step cf (step cf st (Close k (Some 0) err now)) (Finish k stat moved date))
              = historyList st @ [(i, date)]
            \<and> status i = ''completed'' \<and> progress i = 100 \<and> completedAt i = Some now)"
proof -
  have "branch_ok st" unfolding assms(1) by (rule run_branch_ok [OF boot_branch_ok])
  with assms(2) obtain d c where job: "objs st k = Some d" "config d = Some c"
    unfolding branch_ok_def by blast
  let ?d1 = "d\<lparr>info := (info d)\<lparr>status := ''completed'', progress := 100, completedAt := Some now\<rparr>\<rparr>"
  let ?s1 = "step cf st (Close k (Some 0) err now)"
  have s1: "?s1 = st\<lparr>workers := remove1 k (workers st), objs := (objs st)(k \<mapsto> ?d1),
      finishing := finishing st @ [k]\<rparr>"
    using assms(2) job by (simp add: step_def on_close_def Let_def)
  have 1: "objs ?s1 k = Some ?d1" by (simp add: s1)
  have f: "k \<in> set (finishing ?s1)" by (simp add: s1)
  have h1: "historyList ?s1 = historyList st" "activeDownloads ?s1 = activeDownloads st" by (simp_all add: s1)
  obtain i where i: "historyList (step cf ?s1 (Finish k stat moved date)) = historyList ?s1 @ [(i, date)]"
    "status i = ''completed''" "progress i = 100" "completedAt i = Some now"
    using f 1 job(2)
    by (cases stat) (auto simp: step_def on_finish_def Let_def processQueue_history broadcast_def saveState_def)
  show ?thesis using 1 i h1 by simp
qed

subsection \<open>Promotion when a job leaves the table\<close>

text \<open>
  C2. Two jobs with one slot; the first is running and the second is queued. When the
  worker of the first exits with code 1 and no transient signature, the job is set to
  \<open>error\<close> and removed from the table, but \<open>processQueue\<close> is not called: the second job
  stays \<open>queued\<close> at the head of the queue although no job is running. The same happens
  when the first job is cancelled. When the first job succeeds, the second is promoted.
\<close>

theorem no_promotion_after_error_or_cancel:
  "table_get (run one_slot (boot None None) first_fails) ''A'' = None
   \<and> map_option (status \<circ> info) (objs (run one_slot (boot None None) first_fails) ''A'') = Some ''error''
   \<and> runningCount (run one_slot (boot None None) first_fails) = 0
   \<and> downloadQueue (run one_slot (boot None None) first_fails) = [''B'']
   \<and> map_option (status \<circ> info) (table_get (run one_slot (boot None None) first_fails) ''B'') = Some ''queued''
   \<and> table_get (run one_slot (boot None None) first_cancelled) ''A'' = None
   \<and> runningCount (run one_slot (boot None None) first_cancelled) = 0
   \<and> downloadQueue (run one_slot (boot None None) first_cancelled) = [''B'']
   \<and> map_option (status \<circ> info) (table_get (run one_slot (boot None None) first_cancelled) ''B'') = Some ''queued''
   \<and> downloadQueue (run one_slot (boot None None) first_succeeds) = []
   \<and> map_option (status \<circ> info) (table_get (run one_slot (boot None None) first_succeeds) ''B'') = Some ''downloading''"
  by code_simp

subsection \<open>Parallelism of a direct download\<close>

text \<open>
  C9. A plain file requested in single-segment mode. In the queueing server the job is
  taken from the queue and set to \<open>downloading\<close>, and \<open>startDownload\<close> then throws in the
  aria2c branch: no worker is spawned and the request gets no answer. The first server
  builds, for the same request, an aria2c invocation with one connection and one split.
\<close>

theorem aria2c_branch_spawns_nothing:
  "spawned (run one_slot (boot None None) single_segment_run) = []
   \<and> workers (run one_slot (boot None None) single_segment_run) = []
   \<and> started (run one_slot (boot None None) single_segment_run) = [''D'']
   \<and> map_option (status \<circ> info) (table_get (run one_slot (boot None None) single_segment_run) ''D'')
       = Some ''downloading''
   \<and> snd (download_post one_slot ''D'' ''t0'' (direct_req ''d'' True) (boot None None)) = None
   \<and> ''--max-connection-per-server=1'' \<in> set (launch_aria2c_args ''5G'' (direct_req ''d'' True) 0)
   \<and> ''--split=1'' \<in> set (launch_aria2c_args ''5G'' (direct_req ''d'' True) 0)"
  by code_simp

text \<open>
  The first server chooses one connection and one split exactly for a YouTube URL, a retry
  or a single-segment request, and sixteen of each otherwise.
\<close>

lemma launch_parallelism:
  "set (launch_aria2c_args m c n) \<inter> {''--max-connection-per-server=1'', ''--split=1'',
       ''--max-connection-per-server=16'', ''--split=16''}
     \<supseteq> (if isYouTube (cfg_url c) \<or> 0 < n \<or> singleSegment c
        then {''--max-connection-per-server=1'', ''--split=1''}
        else {''--max-connection-per-server=16'', ''--split=16''})"
  by (simp add: launch_aria2c_args_def)

subsection \<open>Artifact retrieval\<close>





text \<open>
  The name under which a finished job is recorded, with no routing rule matching. For the
  video job it is \<open>a.mp4\<close>, the file yt-dlp is told to write. For the stream job it is
  \<open>c\<close>, while ffmpeg is told to write \<open>c.mp4\<close>.
\<close>

lemma recorded_filename:
  "map (filename \<circ> fst) (historyList (run one_slot (boot None None) first_succeeds)) = [''a.mp4'']
   \<and> path_join downloadsDir ''a.mp4'' \<in> set (ytArgs (video_req ''a''))
   \<and> map (filename \<circ> fst) (historyList (run one_slot (boot None None) stream_done)) = [''c'']
   \<and> last (ffmpegArgs (stream_req ''c'')) = path_join downloadsDir ''c.mp4''"
  by code_simp

subsection \<open>The retry policy\<close>

text \<open>
  C3. In any state, for any settings, the \<open>close\<close> handler of a live worker that exits with
  a non-zero code arms the retry timer of the job, sets the job to \<open>retrying\<close> and adds one
  to its retry count exactly when the retry count is below \<open>RETRY_ATTEMPTS\<close> and the error
  output contains \<open>503\<close>, \<open>Connection\<close>, \<open>timeout\<close> or \<open>SSL\<close> or the code is 3 or 7;
  otherwise it sets \<open>error\<close>, arms no timer and leaves the retry count; in both cases it
  spawns nothing and leaves the queue as it is. And in any state of a run with
  \<open>RETRY_ATTEMPTS = 2\<close>, a job in the table whose worker is running and whose retry count
  is 0 has been spawned once; when its worker and the workers of its retries exit with a
  non-zero code and a transient signature, each retry timer firing before the next exit,
  the job is \<open>retrying\<close> with retry count 1 and 2 after the first and the second exit, each
  timer calls \<open>startDownload\<close> for the same id, which sets the job to \<open>downloading\<close> and
  spawns one more worker for it, and after the third exit the job is \<open>error\<close> and no timer
  is armed: three workers have been spawned for the job, and the queue is never touched.
  Whatever the events and their order, no job of a run is ever spawned more than
  \<open>RETRY_ATTEMPTS + 1\<close> times.
\<close>

theorem retry_policy:
  "(j \<in> set (workers s) \<and> objs s j = Some d0 \<and> code \<noteq> Some 0 \<longrightarrow>
      (let retry = (retryCount d0 < RETRY_ATTEMPTS cf
                \<and> (str_includes err ''503'' \<or> str_includes err ''Connection''
                   \<or> str_includes err ''timeout'' \<or> str_includes err ''SSL''
                   \<or> code = Some 3 \<or> code = Some 7));
           s' = step cf s (Close j code err now)
       in timers s' = (if retry then timers s @ [j] else timers s)
          \<and> status_of s' j = Some (if retry then ''retrying'' else ''error'')
          \<and> retries_of s' j = Some (if retry then retryCount d0 + 1 else retryCount d0)
          \<and> downloadQueue s' = downloadQueue s \<and> spawned s' = spawned s))
   \<and> (st = run cf (boot data hist) evs
        \<and> k \<in> set (activeDownloads st) \<and> k \<in> set (workers st) \<and> retries_of st k = Some 0
        \<and> RETRY_ATTEMPTS cf = 2
        \<and> c1 \<noteq> Some 0 \<and> transient e1 c1 \<and> c2 \<noteq> Some 0 \<and> transient e2 c2
        \<and> c3 \<noteq> Some 0 \<and> transient e3 c3 \<longrightarrow>
      (let s1 = step cf st (Close k c1 e1 t1); s2 = step cf s1 (RetryTimer k t2);
           s3 = step cf s2 (Close k c2 e2 t3); s4 = step cf s3 (RetryTimer k t4);
           s5 = step cf s4 (Close k c3 e3 t5)
       in status_of s1 k = Some ''retrying'' \<and> retries_of s1 k = Some 1
          \<and> status_of s2 k = Some ''downloading''
          \<and> status_of s3 k = Some ''retrying'' \<and> retries_of s3 k = Some 2
          \<and> status_of s4 k = Some ''downloading''
          \<and> status_of s5 k = Some ''error''
          \<and> map (\<lambda>x. length (spawns_of x k)) [st, s1, s2, s3, s4, s5] = [1, 1, 2, 2, 3, 3]
          \<and> map (\<lambda>x. map fst (spawns_of x k)) [s2, s4] = [[k, k], [k, k, k]]
          \<and> map downloadQueue [s1, s2, s3, s4, s5] = replicate 5 (downloadQueue st)
          \<and> timers s5 = timers s4))
   \<and> length (spawns_of (run cf (boot data' hist') evs') k') \<le> RETRY_ATTEMPTS cf + 1"
proof (intro conjI impI)
  show "length (spawns_of (run cf (boot data' hist') evs') k') \<le> RETRY_ATTEMPTS cf + 1"
    by (rule attempts_at_most)
next
  assume "j \<in> set (workers s) \<and> objs s j = Some d0 \<and> code \<noteq> Some 0"
  then show "(let retry = (retryCount d0 < RETRY_ATTEMPTS cf
                \<and> (str_includes err ''503'' \<or> str_includes err ''Connection''
                   \<or> str_includes err ''timeout'' \<or> str_includes err ''SSL''
                   \<or> code = Some 3 \<or> code = Some 7));
           s' = step cf s (Close j code err now)
       in timers s' = (if retry then timers s @ [j] else timers s)
          \<and> status_of s' j = Some (if retry then ''retrying'' else ''error'')
          \<and> retries_of s' j = Some (if retry then retryCount d0 + 1 else retryCount d0)
          \<and> downloadQueue s' = downloadQueue s \<and> spawned s' = spawned s)"
    using exit_decision [of j s d0 code cf err now] by blast
next
  assume h: "st = run cf (boot data hist) evs
        \<and> k \<in> set (activeDownloads st) \<and> k \<in> set (workers st) \<and> retries_of st k = Some 0
        \<and> RETRY_ATTEMPTS cf = 2
        \<and> c1 \<noteq> Some 0 \<and> transient e1 c1 \<and> c2 \<noteq> Some 0 \<and> transient e2 c2
        \<and> c3 \<noteq> Some 0 \<and> transient e3 c3"
  then have reach: "st = run cf (boot data hist) evs" and ka: "k \<in> set (activeDownloads st)"
    and kw: "k \<in> set (workers st)" and z: "retries_of st k = Some 0" and two: "RETRY_ATTEMPTS cf = 2"
    and f1: "c1 \<noteq> Some 0" "transient e1 c1" and f2: "c2 \<noteq> Some 0" "transient e2 c2"
    and f3: "c3 \<noteq> Some 0" "transient e3 c3"
    by blast+
  define s1 where "s1 = step cf st (Close k c1 e1 t1)"
  define s2 where "s2 = step cf s1 (RetryTimer k t2)"
  define s3 where "s3 = step cf s2 (Close k c2 e2 t3)"
  define s4 where "s4 = step cf s3 (RetryTimer k t4)"
  define s5 where "s5 = step cf s4 (Close k c3 e3 t5)"
  have "branch_ok st" unfolding reach by (rule run_branch_ok [OF boot_branch_ok])
  with kw obtain d c where job: "objs st k = Some d" "config d = Some c" "has_worker_branch c"
    unfolding branch_ok_def by blast
  from job(1) z have zero: "retryCount d = 0" by (simp add: retries_of_def)
  have one: "length (spawns_of st k) = 1" by (rule first_attempt [OF reach kw z])
  have r0: "retryCount d < RETRY_ATTEMPTS cf" using zero two by simp
  from retry_round [OF ka job kw r0 f1, of t1 t2]
  obtain d2 where a: "status_of s1 k = Some ''retrying''" "retries_of s1 k = Some 1"
    "downloadQueue s1 = downloadQueue st" "spawns_of s1 k = spawns_of st k"
    "k \<in> set (activeDownloads s2)" "objs s2 k = Some d2" "config d2 = Some c" "retryCount d2 = 1"
    "status (info d2) = ''downloading''" "k \<in> set (workers s2)"
    "length (spawns_of s2 k) = length (spawns_of st k) + 1" "downloadQueue s2 = downloadQueue st"
    unfolding s1_def [symmetric] s2_def [symmetric] using zero by auto
  have r1: "retryCount d2 < RETRY_ATTEMPTS cf" using a(8) two by simp
  from retry_round [OF a(5,6,7) job(3) a(10) r1 f2, of t3 t4]
  obtain d4 where b: "status_of s3 k = Some ''retrying''" "retries_of s3 k = Some 2"
    "downloadQueue s3 = downloadQueue s2" "spawns_of s3 k = spawns_of s2 k"
    "objs s4 k = Some d4" "retryCount d4 = 2"
    "status (info d4) = ''downloading''" "k \<in> set (workers s4)"
    "length (spawns_of s4 k) = length (spawns_of s2 k) + 1" "downloadQueue s4 = downloadQueue s2"
    unfolding s3_def [symmetric] s4_def [symmetric] using a(8) by auto
  have r2: "\<not> retryCount d4 < RETRY_ATTEMPTS cf" using b(6) two by simp
  from final_failure [OF b(5,8) r2 f3(1), of e3 t5]
  have c: "status_of s5 k = Some ''error''" "spawns_of s5 k = spawns_of s4 k"
    "downloadQueue s5 = downloadQueue s4" "timers s5 = timers s4"
    unfolding s5_def [symmetric] by simp_all
  have ids: "\<And>x. map fst (spawns_of x k) = replicate (length (spawns_of x k)) k"
    by (simp add: spawns_of_def map_replicate_const [symmetric] cong: map_cong)
  have "status_of s2 k = Some ''downloading''" "status_of s4 k = Some ''downloading''"
    using a(6,9) b(5,7) by (simp_all add: status_of_def)
  with a b c one have run: "status_of s1 k = Some ''retrying'' \<and> retries_of s1 k = Some 1
          \<and> status_of s2 k = Some ''downloading''
          \<and> status_of s3 k = Some ''retrying'' \<and> retries_of s3 k = Some 2
          \<and> status_of s4 k = Some ''downloading''
          \<and> status_of s5 k = Some ''error''
          \<and> map (\<lambda>x. length (spawns_of x k)) [st, s1, s2, s3, s4, s5] = [1, 1, 2, 2, 3, 3]
          \<and> map (\<lambda>x. map fst (spawns_of x k)) [s2, s4] = [[k, k], [k, k, k]]
          \<and> map downloadQueue [s1, s2, s3, s4, s5] = replicate 5 (downloadQueue st)
          \<and> timers s5 = timers s4"
    by (simp add: numeral_eq_Suc ids)
  then show "(let s1 = step cf st (Close k c1 e1 t1); s2 = step cf s1 (RetryTimer k t2);
           s3 = step cf s2 (Close k c2 e2 t3); s4 = step cf s3 (RetryTimer k t4);
           s5 = step cf s4 (Close k c3 e3 t5)
       in status_of s1 k = Some ''retrying'' \<and> retries_of s1 k = Some 1
          \<and> status_of s2 k = Some ''downloading''
          \<and> status_of s3 k = Some ''retrying'' \<and> retries_of s3 k = Some 2
          \<and> status_of s4 k = Some ''downloading''
          \<and> status_of s5 k = Some ''error''
          \<and> map (\<lambda>x. length (spawns_of x k)) [st, s1, s2, s3, s4, s5] = [1, 1, 2, 2, 3, 3]
          \<and> map (\<lambda>x. map fst (spawns_of x k)) [s2, s4] = [[k, k], [k, k, k]]
          \<and> map downloadQueue [s1, s2, s3, s4, s5] = replicate 5 (downloadQueue st)
          \<and> timers s5 = timers s4)"
    unfolding s1_def s2_def s3_def s4_def s5_def Let_def by blast
qed

lemma started_a_eval:
  "''A'' \<in> set (activeDownloads started_a)"
  "''A'' \<in> set (workers started_a)"
  "retries_of started_a ''A'' = Some 0"
  "RETRY_ATTEMPTS one_slot = 2"
  "transient ''HTTP 503'' (Some 1)"
  "transient [] (Some 7)"
  "transient ''SSL error'' (Some 1)"
  "objs started_a ''A'' = Some (the (objs started_a ''A''))"
  "retryCount (the (objs started_a ''A'')) = 0"
  "timers started_a = []"
  "str_includes ''HTTP 503'' ''503''"
  by code_simp+

theorem retry_policy_witness:
  "timers (step one_slot started_a (Close ''A'' (Some 1) ''HTTP 503'' ''t1'')) = [''A'']
   \<and> status_of (run one_slot started_a three_failures) ''A'' = Some ''error''
   \<and> length (spawns_of (run one_slot started_a three_failures) ''A'') = 3"
  using retry_policy [where s = started_a and j = "''A''" and ?d0.0 = "the (objs started_a ''A'')"
      and code = "Some 1" and err = "''HTTP 503''" and now = "''t1''" and cf = one_slot
      and st = started_a and k = "''A''" and data = None and hist = None
      and evs = "[Submit ''A'' ''t0'' (video_req ''a'')]"
      and ?c1.0 = "Some 1" and ?e1.0 = "''HTTP 503''" and ?c2.0 = "Some 7" and ?e2.0 = "[]"
      and ?c3.0 = "Some 1" and ?e3.0 = "''SSL error''"
      and ?t1.0 = "''t1''" and ?t2.0 = "''t2''" and ?t3.0 = "''t3''" and ?t4.0 = "''t4''" and ?t5.0 = "''t5''"]
    started_a_eval started_a_def
  by (simp add: three_failures_def run_Cons run_Nil Let_def)

subsection \<open>Cancel-all\<close>

text \<open>
  C7, as the code has it. In any state of a run, cancel-all sets every job of the active
  table to \<open>cancelled\<close>, sends SIGTERM to the worker handle of each job that has one,
  empties the table and answers with the number of jobs that were in it. It leaves the
  array of queued ids as it is; but whatever happens afterwards, no worker is ever spawned
  for an id that was in the queue: the id is no longer in the table, so \<open>startDownload\<close>
  returns at once when \<open>processQueue\<close> takes it.
\<close>

theorem cancel_all_effect:
  assumes "st = run cf (boot data hist) evs"
  shows "activeDownloads (fst (cancel_all st)) = []
     \<and> snd (cancel_all st) = length (activeDownloads st)
     \<and> (\<forall>k \<in> set (activeDownloads st). status_of (fst (cancel_all st)) k = Some ''cancelled'')
     \<and> (\<forall>k \<in> set (activeDownloads st). \<forall>d p. objs st k = Some d \<longrightarrow> process d = Some p \<longrightarrow>
            p \<in> set (killed (fst (cancel_all st))))
     \<and> downloadQueue (fst (cancel_all st)) = downloadQueue st
     \<and> (\<forall>k \<in> set (downloadQueue st).
            spawns_of (run cf (fst (cancel_all st)) evs') k = spawns_of st k)"
proof -
  have i: "inv cf st" unfolding assms by (rule run_inv [OF boot_inv])
  then have w: "wf st" by (simp add: inv_def)
  let ?r = "foldl cancel_entry (st, 0) (activeDownloads st)"
  have ex: "\<forall>k \<in> set (activeDownloads st). objs (fst (st, 0::nat)) k \<noteq> None"
    using wf_known [OF w] by simp
  from cancel_fold_effect [OF ex, of st]
  have n: "snd ?r = length (activeDownloads st)"
    and c: "\<And>k. k \<in> set (activeDownloads st) \<Longrightarrow> cancelled_at st (fst ?r) k"
    by simp_all
  have v: "activeDownloads (fst (cancel_all st)) = []" "snd (cancel_all st) = snd ?r"
    "objs (fst (cancel_all st)) = objs (fst ?r)" "killed (fst (cancel_all st)) = killed (fst ?r)"
    "downloadQueue (fst (cancel_all st)) = downloadQueue st"
    "spawned (fst (cancel_all st)) = spawned st"
    using cancel_fold_view [of "(st, 0)" "activeDownloads st"]
      cancel_fold_frame [of "(st, 0)" "activeDownloads st"]
    by (simp_all add: cancel_all_def saveState_def Let_def)
  have 3: "\<forall>k \<in> set (activeDownloads st). status_of (fst (cancel_all st)) k = Some ''cancelled''"
    using c by (auto simp: status_of_def v cancelled_at_def)
  have 4: "\<forall>k \<in> set (activeDownloads st). \<forall>d p. objs st k = Some d \<longrightarrow> process d = Some p \<longrightarrow>
            p \<in> set (killed (fst (cancel_all st)))"
    using c by (fastforce simp: v cancelled_at_def)
  have 6: "\<forall>k \<in> set (downloadQueue st).
            spawns_of (run cf (fst (cancel_all st)) evs') k = spawns_of st k"
  proof
    fix k assume "k \<in> set (downloadQueue st)"
    with wf_known [OF w, of k] have "objs st k \<noteq> None" by simp
    with cancel_fold_view [of "(st, 0)" "activeDownloads st"]
    have "objs (fst (cancel_all st)) k \<noteq> None" by (simp add: v)
    then have "dead (fst (cancel_all st)) k" by (auto simp: dead_def v)
    from run_dead [OF this, of cf evs']
    show "spawns_of (run cf (fst (cancel_all st)) evs') k = spawns_of st k"
      by (simp add: spawns_of_def v)
  qed
  from v n 3 4 6 show ?thesis by simp
qed

text \<open>
  C7, as stated, fails on the queue: with one job running and one queued, the queued id is
  still in the queue after cancel-all.
\<close>

theorem cancel_all_keeps_queue:
  "downloadQueue (fst (cancel_all (run one_slot (boot None None) two_submits))) = [''B'']"
  by code_simp

lemma two_submits_state:
  "activeDownloads (run one_slot (boot None None) two_submits) = [''A'', ''B'']"
  "downloadQueue (run one_slot (boot None None) two_submits) = [''B'']"
  "spawns_of (run one_slot (boot None None) two_submits) ''B'' = []"
  "map fst (spawned (run one_slot (fst (cancel_all (run one_slot (boot None None) two_submits)))
      third_submit)) = [''A'', ''C'']"
  by code_simp+

theorem cancel_all_effect_witness:
  "snd (cancel_all (run one_slot (boot None None) two_submits)) = 2
   \<and> status_of (fst (cancel_all (run one_slot (boot None None) two_submits))) ''B'' = Some ''cancelled''
   \<and> spawns_of (run one_slot (fst (cancel_all (run one_slot (boot None None) two_submits)))
        third_submit) ''B'' = []
   \<and> map fst (spawned (run one_slot (fst (cancel_all (run one_slot (boot None None) two_submits)))
        third_submit)) = [''A'', ''C'']"
  using cancel_all_effect [OF refl, of one_slot None None two_submits third_submit]
    two_submits_state
  by simp

end
